theory Spec2Isabelle
  imports Main "HOL-Library.Sublist"
begin

section \<open>Values shared by the surface and the converter\<close>

text \<open>
  Errors the JavaScript can raise: the explicit \<^verbatim>\<open>throw new Error( 'Invalid annotations' )\<close>
  and the implicit TypeError of reading a property of \<^verbatim>\<open>undefined\<close> or \<^verbatim>\<open>null\<close>.
\<close>

datatype error = InvalidAnnotations | TypeError

text \<open>A JavaScript reference that may be \<^verbatim>\<open>undefined\<close>, \<^verbatim>\<open>null\<close> or an object;
  \<^verbatim>\<open>!==\<close> tells the three apart.\<close>

datatype 'a js = Undefined | Null | Obj 'a

text \<open>\<^verbatim>\<open>xs.slice( 0, e )\<close>: a negative end counts from the end of the array.\<close>

definition slice0 :: "'a list \<Rightarrow> int \<Rightarrow> 'a list" where
  "slice0 xs e = take (nat (if e < 0 then max (int (length xs) + e) 0 else e)) xs"

text \<open>\<^verbatim>\<open>xs[ i ]\<close>: \<^verbatim>\<open>undefined\<close> outside the array.\<close>

definition js_index :: "'a list \<Rightarrow> int \<Rightarrow> 'a option" where
  "js_index xs i = (if 0 \<le> i \<and> i < int (length xs) then Some (xs ! nat i) else None)"

subsection \<open>ve.Range\<close>

text \<open>
  Modelled from the spec: ve.Range is not among the sources. A range has the two ends
  \<^verbatim>\<open>from\<close> and \<^verbatim>\<open>to\<close> in the direction of the selection; \<^verbatim>\<open>start\<close> is the smaller
  and \<^verbatim>\<open>end\<close> the larger one; it is collapsed iff start = end.
\<close>

record range =
  rfrom :: nat
  rto :: nat

definition veRange :: "nat \<Rightarrow> nat \<Rightarrow> range" where
  "veRange f t = \<lparr>rfrom = f, rto = t\<rparr>"

definition rstart :: "range \<Rightarrow> nat" where
  "rstart r = min (rfrom r) (rto r)"

definition rend :: "range \<Rightarrow> nat" where
  "rend r = max (rfrom r) (rto r)"

definition range_isCollapsed :: "range \<Rightarrow> bool" where
  "range_isCollapsed r = (rfrom r = rto r)"

definition isBackwards :: "range \<Rightarrow> bool" where
  "isBackwards r = (rto r < rfrom r)"

definition equalsSelection :: "range \<Rightarrow> range \<Rightarrow> bool" where
  "equalsSelection a b = (rend a = rend b \<and> rstart a = rstart b)"

subsection \<open>ve.dm.Selection\<close>

text \<open>
  Modelled from the spec: the selection classes are not among the sources. A selection is
  an immutable value of one of three variants; \<^verbatim>\<open>equals\<close> is equality of values and
  \<^verbatim>\<open>clone\<close> returns an equal value. \<open>'ts\<close> is the description of a table selection.
\<close>

datatype 'ts selection = LinearSelection range | TableSelection 'ts | NullSelection

definition isNull :: "'ts selection \<Rightarrow> bool" where
  "isNull sel = (case sel of NullSelection \<Rightarrow> True | _ \<Rightarrow> False)"

subsection \<open>ve.dm.AnnotationSet\<close>

text \<open>
  Modelled from the spec: ve.dm.AnnotationSet is not among the sources. An annotation set is
  an ordered sequence of store indices; an annotation is identified with its index in the
  IndexValueStore, where equal values are interned once. \<^verbatim>\<open>equalsInOrder\<close> compares the
  sequences, \<^verbatim>\<open>compareTo\<close> the contents whatever the order.
\<close>

type_synonym annotationSet = "nat list"

definition containsIndex :: "annotationSet \<Rightarrow> nat \<Rightarrow> bool" where
  "containsIndex a i = (i \<in> set a)"

definition removeIndex :: "annotationSet \<Rightarrow> nat \<Rightarrow> annotationSet" where
  "removeIndex a i = remove1 i a"

definition removeAt :: "annotationSet \<Rightarrow> nat \<Rightarrow> annotationSet" where
  "removeAt a n = take n a @ drop (Suc n) a"

definition pushIndex :: "annotationSet \<Rightarrow> nat \<Rightarrow> annotationSet" where
  "pushIndex a i = a @ [i]"

text \<open>The union of two arrays of indices: the indices of both in their order, each kept
  where it occurs first.\<close>

fun simpleArrayUnion :: "nat list \<Rightarrow> nat list \<Rightarrow> nat list" where
  "simpleArrayUnion seen [] = seen"
| "simpleArrayUnion seen (i # xs) =
     simpleArrayUnion (if i \<in> set seen then seen else seen @ [i]) xs"

definition addSet :: "annotationSet \<Rightarrow> annotationSet \<Rightarrow> annotationSet" where
  "addSet a b = simpleArrayUnion [] (a @ b)"

definition removeSet :: "annotationSet \<Rightarrow> annotationSet \<Rightarrow> annotationSet" where
  "removeSet a b = filter (\<lambda>i. i \<notin> set b) a"

definition diffWith :: "annotationSet \<Rightarrow> annotationSet \<Rightarrow> annotationSet" where
  "diffWith a b = filter (\<lambda>i. i \<notin> set b) a"

definition getIndex :: "annotationSet \<Rightarrow> nat \<Rightarrow> nat option" where
  "getIndex a n = (if n < length a then Some (a ! n) else None)"

definition equalsInOrder :: "annotationSet \<Rightarrow> annotationSet \<Rightarrow> bool" where
  "equalsInOrder a b = (a = b)"

definition compareTo :: "annotationSet \<Rightarrow> annotationSet \<Rightarrow> bool" where
  "compareTo a b = (length a = length b \<and> (\<forall>i \<in> set a. i \<in> set b))"

section \<open>ve.dm.Surface\<close>

subsection \<open>State of a surface and its collaborators\<close>

text \<open>The events a surface emits, in the order of emission.\<close>

datatype ('tx, 'ts) event =
    Select "'ts selection"
  | Focus
  | Blur
  | DocumentUpdate 'tx
  | ContextChange
  | InsertionAnnotationsChange annotationSet
  | History

text \<open>A frame of the staging stack and a checkpoint of the undo stack.\<close>

record ('tx, 'ts) staging =
  st_transactions :: "'tx list"
  st_selectionBefore :: "'ts selection"
  allowUndo :: bool

record ('tx, 'ts) checkpoint =
  transactions :: "'tx list"
  ck_selection :: "'ts selection"
  ck_selectionBefore :: "'ts selection"

text \<open>
  The classes ve.dm.Transaction, ve.dm.Document, ve.dm.ElementLinearData, ve.dm.Node and
  ve.dm.TableSelection are not among the sources: the surface only calls them. Their
  methods are parameters of the model, collected in one record. \<open>'doc\<close> is the state of
  the document, \<open>'tx\<close> a transaction, \<open>'node\<close> a node of the document tree.
  \<open>process\<close> is the effect of \<^verbatim>\<open>Document.commit( tx, staging )\<close> on the document itself.
\<close>

record ('doc, 'tx, 'node, 'ts) env =
  isNoOp :: "'tx \<Rightarrow> bool"
  reversed :: "'tx \<Rightarrow> 'tx"
  hasElementAttributeOperations :: "'tx \<Rightarrow> bool"
  process :: "'tx \<Rightarrow> bool \<Rightarrow> 'doc \<Rightarrow> 'doc"
  translateByTransaction :: "'tx \<Rightarrow> 'ts selection \<Rightarrow> 'ts selection"
  getBranchNodeFromOffset :: "'doc \<Rightarrow> nat \<Rightarrow> 'node js"
  getNodeFromOffset :: "'doc \<Rightarrow> nat \<Rightarrow> 'node option"
  getOuterRange :: "'doc \<Rightarrow> 'node \<Rightarrow> range"
  getMatrixCells :: "'doc \<Rightarrow> 'ts \<Rightarrow> 'node list"
  getInsertionAnnotationsFromRange :: "'doc \<Rightarrow> range \<Rightarrow> annotationSet"
  getAnnotationsFromOffset :: "'doc \<Rightarrow> nat \<Rightarrow> annotationSet"
  getAnnotationsFromRange :: "'doc \<Rightarrow> range \<Rightarrow> bool \<Rightarrow> annotationSet"
  getLength :: "'doc \<Rightarrow> nat"
  annotationName :: "'doc \<Rightarrow> nat \<Rightarrow> string"

text \<open>
  The fields of the constructor, in its order (the meta list, which only listens to the
  document, is left out). \<open>historyTrackingInterval\<close> tells whether the timer is set;
  \<open>emitted\<close> is the log of the events emitted so far.
\<close>

record ('doc, 'tx, 'node, 'ts) surface =
  documentModel :: 'doc
  selection :: "'ts selection"
  selectionBefore :: "'ts selection"
  translatedSelection :: "'ts selection option"
  branchNodes :: "'node js \<times> 'node js"
  selectedNode :: "'node js"
  newTransactions :: "'tx list"
  stagingStack :: "('tx, 'ts) staging list"
  undoStack :: "('tx, 'ts) checkpoint list"
  undoIndex :: nat
  historyTrackingInterval :: bool
  insertionAnnotations :: annotationSet
  selectedAnnotations :: annotationSet
  isCollapsed :: "bool option"
  enabled :: bool
  transacting :: bool
  queueingContextChanges :: bool
  contextChangeQueued :: bool
  emitted :: "('tx, 'ts) event list"

definition VeDmSurface :: "'doc \<Rightarrow> ('doc, 'tx, 'node, 'ts) surface" where
  "VeDmSurface doc =
     \<lparr>documentModel = doc, selection = NullSelection, selectionBefore = NullSelection,
      translatedSelection = None, branchNodes = (Undefined, Undefined), selectedNode = Null,
      newTransactions = [], stagingStack = [], undoStack = [], undoIndex = 0,
      historyTrackingInterval = False, insertionAnnotations = [], selectedAnnotations = [],
      isCollapsed = None, enabled = True, transacting = False,
      queueingContextChanges = False, contextChangeQueued = False, emitted = []\<rparr>"

definition emit ::
  "('tx, 'ts) event \<Rightarrow> ('doc, 'tx, 'node, 'ts) surface \<Rightarrow> ('doc, 'tx, 'node, 'ts) surface" where
  "emit e s = s\<lparr>emitted := emitted s @ [e]\<rparr>"

subsection \<open>History tracking, staging queries\<close>

definition startHistoryTracking ::
  "('doc, 'tx, 'node, 'ts) surface \<Rightarrow> ('doc, 'tx, 'node, 'ts) surface" where
  "startHistoryTracking s =
     (if \<not> enabled s then s
      else if \<not> historyTrackingInterval s then s\<lparr>historyTrackingInterval := True\<rparr>
      else s)"

definition stopHistoryTracking ::
  "('doc, 'tx, 'node, 'ts) surface \<Rightarrow> ('doc, 'tx, 'node, 'ts) surface" where
  "stopHistoryTracking s =
     (if \<not> enabled s then s
      else if historyTrackingInterval s then s\<lparr>historyTrackingInterval := False\<rparr>
      else s)"

definition resetHistoryTrackingInterval ::
  "('doc, 'tx, 'node, 'ts) surface \<Rightarrow> ('doc, 'tx, 'node, 'ts) surface" where
  "resetHistoryTrackingInterval s = startHistoryTracking (stopHistoryTracking s)"

definition disable :: "('doc, 'tx, 'node, 'ts) surface \<Rightarrow> ('doc, 'tx, 'node, 'ts) surface" where
  "disable s = emit History ((stopHistoryTracking s)\<lparr>enabled := False\<rparr>)"

definition enable :: "('doc, 'tx, 'node, 'ts) surface \<Rightarrow> ('doc, 'tx, 'node, 'ts) surface" where
  "enable s = emit History (startHistoryTracking (s\<lparr>enabled := True\<rparr>))"

definition isStaging :: "('doc, 'tx, 'node, 'ts) surface \<Rightarrow> bool" where
  "isStaging s = (0 < length (stagingStack s))"

definition getStaging :: "('doc, 'tx, 'node, 'ts) surface \<Rightarrow> ('tx, 'ts) staging option" where
  "getStaging s = js_index (stagingStack s) (int (length (stagingStack s)) - 1)"

definition doesStagingAllowUndo :: "('doc, 'tx, 'node, 'ts) surface \<Rightarrow> bool" where
  "doesStagingAllowUndo s = (case getStaging s of None \<Rightarrow> False | Some f \<Rightarrow> allowUndo f)"

definition getStagingTransactions :: "('doc, 'tx, 'node, 'ts) surface \<Rightarrow> 'tx list option" where
  "getStagingTransactions s = map_option st_transactions (getStaging s)"

definition canRedo :: "('doc, 'tx, 'node, 'ts) surface \<Rightarrow> bool" where
  "canRedo s = (0 < undoIndex s \<and> enabled s)"

definition hasBeenModified :: "('doc, 'tx, 'node, 'ts) surface \<Rightarrow> bool" where
  "hasBeenModified s =
     (0 < int (length (undoStack s)) - int (undoIndex s) \<or> newTransactions s \<noteq> [])"

definition canUndo :: "('doc, 'tx, 'node, 'ts) surface \<Rightarrow> bool" where
  "canUndo s = (hasBeenModified s \<and> enabled s \<and> (\<not> isStaging s \<or> doesStagingAllowUndo s))"

definition truncateUndoStack ::
  "('doc, 'tx, 'node, 'ts) surface \<Rightarrow> ('doc, 'tx, 'node, 'ts) surface" where
  "truncateUndoStack s =
     (if undoIndex s \<noteq> 0
      then s\<lparr>undoStack := slice0 (undoStack s) (int (length (undoStack s)) - int (undoIndex s)),
             undoIndex := 0\<rparr>
      else s)"

subsection \<open>Queueing of context changes\<close>

definition startQueueingContextChanges ::
  "('doc, 'tx, 'node, 'ts) surface \<Rightarrow> ('doc, 'tx, 'node, 'ts) surface" where
  "startQueueingContextChanges s =
     (if \<not> queueingContextChanges s
      then s\<lparr>queueingContextChanges := True, contextChangeQueued := False\<rparr>
      else s)"

definition emitContextChange ::
  "('doc, 'tx, 'node, 'ts) surface \<Rightarrow> ('doc, 'tx, 'node, 'ts) surface" where
  "emitContextChange s =
     (if queueingContextChanges s then s\<lparr>contextChangeQueued := True\<rparr>
      else emit ContextChange s)"

definition stopQueueingContextChanges ::
  "('doc, 'tx, 'node, 'ts) surface \<Rightarrow> ('doc, 'tx, 'node, 'ts) surface" where
  "stopQueueingContextChanges s =
     (if queueingContextChanges s
      then (let s1 = s\<lparr>queueingContextChanges := False\<rparr>
            in if contextChangeQueued s1
               then emit ContextChange (s1\<lparr>contextChangeQueued := False\<rparr>)
               else s1)
      else s)"

subsection \<open>Insertion annotations\<close>

text \<open>Sequencing of calls that may raise: the first error aborts the rest.\<close>

definition bindE :: "error + 'a \<Rightarrow> ('a \<Rightarrow> error + 'b) \<Rightarrow> error + 'b" where
  "bindE m f = (case m of Inl e \<Rightarrow> Inl e | Inr x \<Rightarrow> f x)"

definition getInsertionAnnotations :: "('doc, 'tx, 'node, 'ts) surface \<Rightarrow> annotationSet" where
  "getInsertionAnnotations s = insertionAnnotations s"

text \<open>The argument is an annotation set or \<^verbatim>\<open>null\<close>.\<close>

definition setInsertionAnnotations ::
  "annotationSet option \<Rightarrow> ('doc, 'tx, 'node, 'ts) surface \<Rightarrow> ('doc, 'tx, 'node, 'ts) surface" where
  "setInsertionAnnotations annotations s =
     (if \<not> enabled s then s
      else (let s1 = s\<lparr>insertionAnnotations := (case annotations of Some a \<Rightarrow> a | None \<Rightarrow> [])\<rparr>
            in emit ContextChange (emit (InsertionAnnotationsChange (insertionAnnotations s1)) s1)))"

text \<open>What a caller may pass where an annotation or an annotation set is expected.\<close>

datatype annotations_arg = AnAnnotation nat | AnAnnotationSet annotationSet | NotAnnotations

definition addInsertionAnnotations ::
  "annotations_arg \<Rightarrow> ('doc, 'tx, 'node, 'ts) surface \<Rightarrow> error + ('doc, 'tx, 'node, 'ts) surface" where
  "addInsertionAnnotations annotations s =
     (if \<not> enabled s then Inr s
      else bindE
        (case annotations of
           AnAnnotation a \<Rightarrow> Inr (s\<lparr>insertionAnnotations := pushIndex (insertionAnnotations s) a\<rparr>)
         | AnAnnotationSet as \<Rightarrow> Inr (s\<lparr>insertionAnnotations := addSet (insertionAnnotations s) as\<rparr>)
         | NotAnnotations \<Rightarrow> Inl InvalidAnnotations)
        (\<lambda>s1. Inr (emit ContextChange (emit (InsertionAnnotationsChange (insertionAnnotations s1)) s1))))"

definition removeInsertionAnnotations ::
  "annotations_arg \<Rightarrow> ('doc, 'tx, 'node, 'ts) surface \<Rightarrow> error + ('doc, 'tx, 'node, 'ts) surface" where
  "removeInsertionAnnotations annotations s =
     (if \<not> enabled s then Inr s
      else bindE
        (case annotations of
           AnAnnotation a \<Rightarrow> Inr (s\<lparr>insertionAnnotations := removeIndex (insertionAnnotations s) a\<rparr>)
         | AnAnnotationSet as \<Rightarrow> Inr (s\<lparr>insertionAnnotations := removeSet (insertionAnnotations s) as\<rparr>)
         | NotAnnotations \<Rightarrow> Inl InvalidAnnotations)
        (\<lambda>s1. Inr (emit ContextChange (emit (InsertionAnnotationsChange (insertionAnnotations s1)) s1))))"

subsection \<open>setSelection\<close>

definition getSelectedNodeFromSelection ::
  "('doc, 'tx, 'node, 'ts) env \<Rightarrow> ('doc, 'tx, 'node, 'ts) surface \<Rightarrow> 'ts selection \<Rightarrow> 'node js" where
  "getSelectedNodeFromSelection env s sel =
     (case sel of
        LinearSelection r \<Rightarrow>
          (if \<not> range_isCollapsed r
           then (case getNodeFromOffset env (documentModel s) (rstart r + 1) of
                   None \<Rightarrow> Null
                 | Some startNode \<Rightarrow>
                     if equalsSelection (getOuterRange env (documentModel s) startNode) r
                     then Obj startNode else Null)
           else Null)
      | _ \<Rightarrow> Null)"

text \<open>
  The chain of \<^verbatim>\<open>instanceof\<close> tests of setSelection (the branches for a linear, a table and
  a null selection). It returns the surface, the local variables \<^verbatim>\<open>range\<close>,
  \<^verbatim>\<open>branchNodes\<close>, \<^verbatim>\<open>selectedNode\<close> and \<^verbatim>\<open>contextChange\<close>. Reading \<^verbatim>\<open>.node\<close> of the first
  matrix cell raises a TypeError when there is no cell.
\<close>

definition selectionBranches ::
  "('doc, 'tx, 'node, 'ts) env \<Rightarrow> 'ts selection \<Rightarrow> ('doc, 'tx, 'node, 'ts) surface \<Rightarrow>
   error + (('doc, 'tx, 'node, 'ts) surface \<times> range option \<times> ('node js \<times> 'node js) \<times> 'node js \<times> bool)" where
  "selectionBranches env sel s =
     (case sel of
        LinearSelection r \<Rightarrow>
          (let doc = documentModel s;
               bstart = getBranchNodeFromOffset env doc (rstart r);
               bend = (if \<not> range_isCollapsed r then getBranchNodeFromOffset env doc (rend r)
                       else bstart);
               node = getSelectedNodeFromSelection env s sel;
               ia = getInsertionAnnotationsFromRange env doc r;
               s1 = (if \<not> equalsInOrder ia (insertionAnnotations s)
                     then setInsertionAnnotations (Some ia) s else s);
               sa = (if range_isCollapsed r then getAnnotationsFromOffset env doc (rstart r)
                     else getAnnotationsFromRange env doc r True)
           in if \<not> compareTo sa (selectedAnnotations s1)
              then Inr (s1\<lparr>selectedAnnotations := sa\<rparr>, Some r, (bstart, bend), node, True)
              else Inr (s1, Some r, (bstart, bend), node, False))
      | TableSelection t \<Rightarrow>
          (case getMatrixCells env (documentModel s) t of
             [] \<Rightarrow> Inl TypeError
           | c # _ \<Rightarrow> Inr (s, None, (Undefined, Undefined), Obj c, True))
      | NullSelection \<Rightarrow> Inr (s, None, (Undefined, Undefined), Undefined, True))"

definition setSelection ::
  "('doc, 'tx, 'node, 'ts) env \<Rightarrow> 'ts selection \<Rightarrow> ('doc, 'tx, 'node, 'ts) surface \<Rightarrow>
   error + ('doc, 'tx, 'node, 'ts) surface" where
  "setSelection env sel s =
     (let oldSelection = selection s in
      if \<not> enabled s then Inr s
      else (let s0 = s\<lparr>translatedSelection := None\<rparr> in
        if transacting s0 then Inr (s0\<lparr>selection := sel\<rparr>)
        else (let selectionChange = (oldSelection \<noteq> sel);
                  s1 = (if selectionChange then s0\<lparr>selection := sel\<rparr> else s0)
          in bindE (selectionBranches env sel s1) (\<lambda>(s2, r, branch, node, cc2).
            let collapsedChange =
                  (case r of None \<Rightarrow> False
                   | Some r' \<Rightarrow> Some (range_isCollapsed r') \<noteq> isCollapsed s2);
                s3 = (if collapsedChange
                      then s2\<lparr>isCollapsed := map_option range_isCollapsed r\<rparr> else s2);
                nodesChange =
                  (node \<noteq> selectedNode s3 \<or> fst branch \<noteq> fst (branchNodes s3) \<or>
                   snd branch \<noteq> snd (branchNodes s3));
                s4 = (if nodesChange then s3\<lparr>branchNodes := branch, selectedNode := node\<rparr>
                      else s3);
                s5 = (if selectionChange
                      then (let a = emit (Select (selection s4)) s4;
                                b = (if isNull oldSelection then emit Focus a else a)
                            in if isNull sel then emit Blur b else b)
                      else s4)
            in Inr (if cc2 \<or> collapsedChange \<or> nodesChange then emitContextChange s5 else s5)))))"

subsection \<open>Committing a transaction to the document\<close>

definition onDocumentPreCommit ::
  "('doc, 'tx, 'node, 'ts) surface \<Rightarrow> ('doc, 'tx, 'node, 'ts) surface" where
  "onDocumentPreCommit s = s\<lparr>translatedSelection := Some (selection s)\<rparr>"

definition onDocumentPreSynchronize ::
  "('doc, 'tx, 'node, 'ts) env \<Rightarrow> 'tx \<Rightarrow> ('doc, 'tx, 'node, 'ts) surface \<Rightarrow>
   ('doc, 'tx, 'node, 'ts) surface" where
  "onDocumentPreSynchronize env tx s =
     (case translatedSelection s of
        None \<Rightarrow> s
      | Some t \<Rightarrow> s\<lparr>translatedSelection := Some (translateByTransaction env tx t)\<rparr>)"

definition onDocumentTransact ::
  "('doc, 'tx, 'node, 'ts) env \<Rightarrow> 'tx \<Rightarrow> ('doc, 'tx, 'node, 'ts) surface \<Rightarrow>
   error + ('doc, 'tx, 'node, 'ts) surface" where
  "onDocumentTransact env tx s =
     bindE (setSelection env (translateByTransaction env tx (selection s)) s)
       (\<lambda>s1. Inr (emit (DocumentUpdate tx) s1))"

text \<open>
  Modelled from the spec: ve.dm.Document is not among the sources. Committing a
  transaction applies it to the document and, as a side effect, pushes a selection update
  to the surface: the constructor connects the document's events \<^verbatim>\<open>precommit\<close>,
  \<^verbatim>\<open>presynchronize\<close> and \<^verbatim>\<open>transact\<close> to the three handlers above, which run in this
  order around the change of the document.
\<close>

definition commit ::
  "('doc, 'tx, 'node, 'ts) env \<Rightarrow> 'tx \<Rightarrow> bool \<Rightarrow> ('doc, 'tx, 'node, 'ts) surface \<Rightarrow>
   error + ('doc, 'tx, 'node, 'ts) surface" where
  "commit env tx staging s =
     (let s1 = onDocumentPreCommit s;
          s2 = s1\<lparr>documentModel := process env tx staging (documentModel s1)\<rparr>;
          s3 = onDocumentPreSynchronize env tx s2
      in onDocumentTransact env tx s3)"

subsection \<open>change and changeInternal\<close>

text \<open>The first argument of change: \<^verbatim>\<open>null\<close>, one transaction, or an array of them
  (an empty array is not \<^verbatim>\<open>null\<close>).\<close>

datatype 'tx transactions_arg = NoTransactions | OneTransaction 'tx | Transactions "'tx list"

definition toArray :: "'tx transactions_arg \<Rightarrow> 'tx list" where
  "toArray a = (case a of NoTransactions \<Rightarrow> [] | OneTransaction t \<Rightarrow> [t] | Transactions ts \<Rightarrow> ts)"

text \<open>The body of \<^verbatim>\<open>if ( !skipUndoStack )\<close>: the transaction goes to the top staging frame
  when staging, to \<open>newTransactions\<close> otherwise.\<close>

definition recordTransaction ::
  "'ts selection \<Rightarrow> 'tx \<Rightarrow> ('doc, 'tx, 'node, 'ts) surface \<Rightarrow> ('doc, 'tx, 'node, 'ts) surface" where
  "recordTransaction selBefore t s =
     (if isStaging s
      then (let top = length (stagingStack s) - 1;
                f = stagingStack s ! top;
                f1 = (if st_transactions f = [] then f\<lparr>st_selectionBefore := selBefore\<rparr> else f);
                f2 = f1\<lparr>st_transactions := st_transactions f1 @ [t]\<rparr>
            in s\<lparr>stagingStack := (stagingStack s)[top := f2]\<rparr>)
      else (let s1 = truncateUndoStack s;
                s2 = (if newTransactions s1 = [] then s1\<lparr>selectionBefore := selBefore\<rparr> else s1)
            in s2\<lparr>newTransactions := newTransactions s2 @ [t]\<rparr>))"

text \<open>The loop over the transactions; the flag is the local \<^verbatim>\<open>contextChange\<close>.\<close>

fun applyTransactions ::
  "('doc, 'tx, 'node, 'ts) env \<Rightarrow> bool \<Rightarrow> 'ts selection \<Rightarrow> 'tx list \<Rightarrow>
   ('doc, 'tx, 'node, 'ts) surface \<times> bool \<Rightarrow> error + (('doc, 'tx, 'node, 'ts) surface \<times> bool)" where
  "applyTransactions env skipUndoStack selBefore [] (s, cc) = Inr (s, cc)"
| "applyTransactions env skipUndoStack selBefore (t # ts) (s, cc) =
     (if \<not> isNoOp env t
      then (let s1 = (if \<not> skipUndoStack then recordTransaction selBefore t s else s)
            in bindE (commit env t (isStaging s1) s1) (\<lambda>s2.
                 applyTransactions env skipUndoStack selBefore ts
                   (s2, cc \<or> hasElementAttributeOperations env t)))
      else applyTransactions env skipUndoStack selBefore ts (s, cc))"

text \<open>The block \<^verbatim>\<open>if ( transactions ) { ... }\<close> under the comment "Process transactions".\<close>

definition processTransactions ::
  "('doc, 'tx, 'node, 'ts) env \<Rightarrow> bool \<Rightarrow> 'ts selection \<Rightarrow> 'tx transactions_arg \<Rightarrow>
   ('doc, 'tx, 'node, 'ts) surface \<Rightarrow> error + (('doc, 'tx, 'node, 'ts) surface \<times> bool)" where
  "processTransactions env skipUndoStack selBefore txs s =
     (if txs \<noteq> NoTransactions
      then bindE
             (applyTransactions env skipUndoStack selBefore (toArray txs)
                (s\<lparr>transacting := True\<rparr>, False))
             (\<lambda>(s2, cc). Inr (emit History (s2\<lparr>transacting := False\<rparr>), cc))
      else Inr (s, False))"

text \<open>The block under the comment "Apply selection change".\<close>

definition applySelectionChange ::
  "('doc, 'tx, 'node, 'ts) env \<Rightarrow> 'tx transactions_arg \<Rightarrow> 'ts selection option \<Rightarrow>
   ('doc, 'tx, 'node, 'ts) surface \<Rightarrow> error + ('doc, 'tx, 'node, 'ts) surface" where
  "applySelectionChange env txs sel s =
     (case sel of
        Some x \<Rightarrow> setSelection env x s
      | None \<Rightarrow> if txs \<noteq> NoTransactions then setSelection env (selection s) s else Inr s)"

definition changeInternal ::
  "('doc, 'tx, 'node, 'ts) env \<Rightarrow> 'tx transactions_arg \<Rightarrow> 'ts selection option \<Rightarrow> bool \<Rightarrow>
   ('doc, 'tx, 'node, 'ts) surface \<Rightarrow> error + ('doc, 'tx, 'node, 'ts) surface" where
  "changeInternal env txs sel skipUndoStack s =
     (let selBefore = selection s in
      if \<not> enabled s then Inr s
      else (let s1 = startQueueingContextChanges s in
        bindE (processTransactions env skipUndoStack selBefore txs s1) (\<lambda>(s3, contextChange).
          let selAfter = selection s3 in
          bindE (applySelectionChange env txs sel s3) (\<lambda>s4.
            let s5 = (if selBefore \<noteq> selAfter \<and> selAfter = selection s4
                      then emit (Select (selection s4)) s4 else s4);
                s6 = (if contextChange then emitContextChange s5 else s5)
            in Inr (stopQueueingContextChanges s6)))))"

definition change ::
  "('doc, 'tx, 'node, 'ts) env \<Rightarrow> 'tx transactions_arg \<Rightarrow> 'ts selection option \<Rightarrow>
   ('doc, 'tx, 'node, 'ts) surface \<Rightarrow> error + ('doc, 'tx, 'node, 'ts) surface" where
  "change env txs sel s = changeInternal env txs sel False s"

subsection \<open>Breakpoints\<close>

definition breakpoint ::
  "('doc, 'tx, 'node, 'ts) surface \<Rightarrow> bool \<times> ('doc, 'tx, 'node, 'ts) surface" where
  "breakpoint s =
     (if \<not> enabled s then (False, s)
      else (let s1 = resetHistoryTrackingInterval s in
        if 0 < length (newTransactions s1)
        then (True, s1\<lparr>undoStack := undoStack s1 @
                          [\<lparr>transactions = newTransactions s1, ck_selection = selection s1,
                            ck_selectionBefore = selectionBefore s1\<rparr>],
                        newTransactions := []\<rparr>)
        else if isNull (selectionBefore s1) \<and> \<not> isNull (selection s1)
        then (False, s1\<lparr>selectionBefore := selection s1\<rparr>)
        else (False, s1)))"

subsection \<open>Staging\<close>

definition pushStaging ::
  "bool \<Rightarrow> ('doc, 'tx, 'node, 'ts) surface \<Rightarrow> ('doc, 'tx, 'node, 'ts) surface" where
  "pushStaging allow s =
     (let s1 = (if \<not> isStaging s
                then emit History (stopHistoryTracking (snd (breakpoint s)))
                else s)
      in s1\<lparr>stagingStack := stagingStack s1 @
               [\<lparr>st_transactions = [], st_selectionBefore = NullSelection, allowUndo = allow\<rparr>]\<rparr>)"

text \<open>popStaging returns the transactions of the frame, or \<^verbatim>\<open>undefined\<close> when not staging.\<close>

definition popStaging ::
  "('doc, 'tx, 'node, 'ts) env \<Rightarrow> ('doc, 'tx, 'node, 'ts) surface \<Rightarrow>
   error + (('doc, 'tx, 'node, 'ts) surface \<times> 'tx list option)" where
  "popStaging env s =
     (if \<not> isStaging s then Inr (s, None)
      else (let staging = last (stagingStack s);
                s1 = s\<lparr>stagingStack := butlast (stagingStack s)\<rparr>;
                recorded = st_transactions staging;
                reverseTransactions = map (reversed env) (rev recorded)
            in bindE (changeInternal env (Transactions reverseTransactions) None True s1) (\<lambda>s2.
                 let s3 = (if \<not> isStaging s2 then emit History (startHistoryTracking s2) else s2)
                 in Inr (s3, Some recorded))))"

definition applyStaging ::
  "('doc, 'tx, 'node, 'ts) surface \<Rightarrow> ('doc, 'tx, 'node, 'ts) surface" where
  "applyStaging s =
     (if \<not> isStaging s then s
      else (let staging = last (stagingStack s);
                s1 = s\<lparr>stagingStack := butlast (stagingStack s)\<rparr>;
                s2 = (if isStaging s1
                      then (let top = length (stagingStack s1) - 1;
                                f = stagingStack s1 ! top;
                                f1 = f\<lparr>st_transactions := st_transactions f @ st_transactions staging\<rparr>;
                                f2 = (if isNull (st_selectionBefore f1)
                                      then f1\<lparr>st_selectionBefore := st_selectionBefore staging\<rparr>
                                      else f1)
                            in s1\<lparr>stagingStack := (stagingStack s1)[top := f2]\<rparr>)
                      else (let t1 = truncateUndoStack s1;
                                t2 = t1\<lparr>newTransactions := st_transactions staging,
                                        selectionBefore := st_selectionBefore staging\<rparr>
                            in snd (breakpoint t2)))
            in if \<not> isStaging s2 then emit History (startHistoryTracking s2) else s2))"

subsection \<open>What the selection handling leaves alone\<close>

text \<open>The fields of the history and of the staging, which setSelection and the handlers
  of the document's events never write.\<close>

definition hist ::
  "('doc, 'tx, 'node, 'ts) surface \<Rightarrow>
   'ts selection \<times> 'tx list \<times> ('tx, 'ts) staging list \<times> ('tx, 'ts) checkpoint list \<times> nat \<times> bool \<times> bool" where
  "hist s = (selectionBefore s, newTransactions s, stagingStack s, undoStack s, undoIndex s,
     historyTrackingInterval s, enabled s)"

definition flags :: "('doc, 'tx, 'node, 'ts) surface \<Rightarrow> bool \<times> bool" where
  "flags s = (transacting s, queueingContextChanges s)"

text \<open>The numbers of contextChange and of insertionAnnotationsChange events emitted so far.\<close>

definition nCC :: "('doc, 'tx, 'node, 'ts) surface \<Rightarrow> nat" where
  "nCC s = count_list (emitted s) ContextChange"

definition countIAC :: "('tx, 'ts) event list \<Rightarrow> nat" where
  "countIAC evs =
     length (filter (\<lambda>e. case e of InsertionAnnotationsChange _ \<Rightarrow> True | _ \<Rightarrow> False) evs)"

definition nIAC :: "('doc, 'tx, 'node, 'ts) surface \<Rightarrow> nat" where
  "nIAC s = countIAC (emitted s)"

lemma bindE_simps [simp]:
  "bindE (Inl e) f = Inl e" "bindE (Inr x) f = f x"
  by (simp_all add: bindE_def)

lemma bindE_Inr_iff: "bindE m f = Inr y \<longleftrightarrow> (\<exists>x. m = Inr x \<and> f x = Inr y)"
  by (cases m) simp_all

lemma emit_frame [simp]:
  "hist (emit e s) = hist s" "flags (emit e s) = flags s"
  "documentModel (emit e s) = documentModel s" "selection (emit e s) = selection s"
  "contextChangeQueued (emit e s) = contextChangeQueued s"
  by (simp_all add: hist_def flags_def emit_def)

lemma emit_counts [simp]:
  "nCC (emit e s) = (if e = ContextChange then nCC s + 1 else nCC s)"
  "nIAC (emit e s) = (case e of InsertionAnnotationsChange _ \<Rightarrow> nIAC s + 1 | _ \<Rightarrow> nIAC s)"
  by (simp_all add: nCC_def nIAC_def countIAC_def emit_def split: event.splits)

lemma emitContextChange_frame [simp]:
  "hist (emitContextChange s) = hist s" "flags (emitContextChange s) = flags s"
  "documentModel (emitContextChange s) = documentModel s"
  "selection (emitContextChange s) = selection s"
  "nIAC (emitContextChange s) = nIAC s"
  by (simp_all add: emitContextChange_def) (simp_all add: hist_def flags_def nIAC_def countIAC_def)

lemma emitContextChange_queueing:
  "queueingContextChanges s \<Longrightarrow> nCC (emitContextChange s) = nCC s"
  by (simp add: emitContextChange_def nCC_def)

lemma emitContextChange_nCC_le: "nCC (emitContextChange s) \<le> nCC s + 1"
  by (simp add: emitContextChange_def) (simp add: nCC_def)

lemma setInsertionAnnotations_frame [simp]:
  "hist (setInsertionAnnotations a s) = hist s" "flags (setInsertionAnnotations a s) = flags s"
  "documentModel (setInsertionAnnotations a s) = documentModel s"
  "selection (setInsertionAnnotations a s) = selection s"
  by (simp_all add: setInsertionAnnotations_def Let_def) (simp_all add: hist_def flags_def)

lemma setInsertionAnnotations_counts:
  "enabled s \<Longrightarrow> nCC (setInsertionAnnotations a s) = nCC s + 1"
  "enabled s \<Longrightarrow> nIAC (setInsertionAnnotations a s) = nIAC s + 1"
  by (simp_all add: setInsertionAnnotations_def Let_def) (simp_all add: nCC_def nIAC_def countIAC_def)

lemma update_frame [simp]:
  "hist (s\<lparr>translatedSelection := ts\<rparr>) = hist s"
  "hist (s\<lparr>selection := sel\<rparr>) = hist s"
  "hist (s\<lparr>selectedAnnotations := sa\<rparr>) = hist s"
  "hist (s\<lparr>isCollapsed := c\<rparr>) = hist s"
  "hist (s\<lparr>branchNodes := b\<rparr>) = hist s"
  "hist (s\<lparr>selectedNode := n\<rparr>) = hist s"
  "hist (s\<lparr>documentModel := d\<rparr>) = hist s"
  "hist (s\<lparr>transacting := t\<rparr>) = hist s"
  "hist (s\<lparr>queueingContextChanges := q\<rparr>) = hist s"
  "hist (s\<lparr>contextChangeQueued := q\<rparr>) = hist s"
  "flags (s\<lparr>translatedSelection := ts\<rparr>) = flags s"
  "flags (s\<lparr>selection := sel\<rparr>) = flags s"
  "flags (s\<lparr>selectedAnnotations := sa\<rparr>) = flags s"
  "flags (s\<lparr>isCollapsed := c\<rparr>) = flags s"
  "flags (s\<lparr>branchNodes := b\<rparr>) = flags s"
  "flags (s\<lparr>selectedNode := n\<rparr>) = flags s"
  "flags (s\<lparr>documentModel := d\<rparr>) = flags s"
  "flags (s\<lparr>contextChangeQueued := q\<rparr>) = flags s"
  by (simp_all add: hist_def flags_def)

lemma update_counts [simp]:
  "nCC (s\<lparr>translatedSelection := ts\<rparr>) = nCC s"
  "nCC (s\<lparr>selection := sel\<rparr>) = nCC s"
  "nCC (s\<lparr>selectedAnnotations := sa\<rparr>) = nCC s"
  "nCC (s\<lparr>isCollapsed := c\<rparr>) = nCC s"
  "nCC (s\<lparr>branchNodes := b\<rparr>) = nCC s"
  "nCC (s\<lparr>selectedNode := n\<rparr>) = nCC s"
  "nCC (s\<lparr>documentModel := d\<rparr>) = nCC s"
  "nCC (s\<lparr>transacting := t\<rparr>) = nCC s"
  "nCC (s\<lparr>queueingContextChanges := q\<rparr>) = nCC s"
  "nCC (s\<lparr>contextChangeQueued := q\<rparr>) = nCC s"
  "nIAC (s\<lparr>translatedSelection := ts\<rparr>) = nIAC s"
  "nIAC (s\<lparr>selection := sel\<rparr>) = nIAC s"
  "nIAC (s\<lparr>selectedAnnotations := sa\<rparr>) = nIAC s"
  "nIAC (s\<lparr>isCollapsed := c\<rparr>) = nIAC s"
  "nIAC (s\<lparr>branchNodes := b\<rparr>) = nIAC s"
  "nIAC (s\<lparr>selectedNode := n\<rparr>) = nIAC s"
  "nIAC (s\<lparr>documentModel := d\<rparr>) = nIAC s"
  "nIAC (s\<lparr>transacting := t\<rparr>) = nIAC s"
  "nIAC (s\<lparr>queueingContextChanges := q\<rparr>) = nIAC s"
  "nIAC (s\<lparr>contextChangeQueued := q\<rparr>) = nIAC s"
  by (simp_all add: nCC_def nIAC_def countIAC_def)

lemma selectionBranches_frame:
  assumes "selectionBranches env sel s = Inr (s', r, b, n, c)"
  shows "hist s' = hist s" and "flags s' = flags s" and "documentModel s' = documentModel s"
    and "selection s' = selection s"
  using assms
  by (cases sel; auto simp: selectionBranches_def Let_def split: if_splits list.splits)+

lemma selectionBranches_counts:
  assumes "selectionBranches env sel s = Inr (s', r, b, n, c)" and "enabled s"
  shows "(nIAC s' = nIAC s \<and> nCC s' = nCC s) \<or> (nIAC s' = nIAC s + 1 \<and> nCC s' = nCC s + 1)"
  using assms
  by (cases sel; auto simp: selectionBranches_def Let_def setInsertionAnnotations_counts split: if_splits list.splits)


lemma emit_fields [simp]:
  "enabled (emit e s) = enabled s" "transacting (emit e s) = transacting s"
  "queueingContextChanges (emit e s) = queueingContextChanges s"
  "stagingStack (emit e s) = stagingStack s" "undoStack (emit e s) = undoStack s"
  "undoIndex (emit e s) = undoIndex s" "newTransactions (emit e s) = newTransactions s"
  "emitted (emit e s) = emitted s @ [e]"
  by (simp_all add: emit_def)

lemma setSelection_disabled: "\<not> enabled s \<Longrightarrow> setSelection env sel s = Inr s"
  by (simp add: setSelection_def)

text \<open>The surface that setSelection hands to the branches on the kind of selection.\<close>

lemma setSelection_cases:
  assumes "setSelection env sel s = Inr s'"
  obtains (disabled) "\<not> enabled s" "s' = s"
  | (shallow) "enabled s" "transacting s" "s' = s\<lparr>translatedSelection := None, selection := sel\<rparr>"
  | (full) s1 s2 r b n c where "enabled s" "\<not> transacting s"
      "s1 = (if selection s \<noteq> sel then s\<lparr>translatedSelection := None, selection := sel\<rparr>
             else s\<lparr>translatedSelection := None\<rparr>)"
      "selectionBranches env sel s1 = Inr (s2, r, b, n, c)"
      "setSelection env sel s = Inr s'"
proof (cases "enabled s")
  case False
  with assms have "s' = s" by (simp add: setSelection_def)
  with False show ?thesis by (rule disabled)
next
  case en: True
  show ?thesis
  proof (cases "transacting s")
    case True
    with assms en have "s' = s\<lparr>translatedSelection := None, selection := sel\<rparr>"
      by (simp add: setSelection_def)
    with en True show ?thesis by (rule shallow)
  next
    case False
    let ?s1 = "if selection s \<noteq> sel then s\<lparr>translatedSelection := None, selection := sel\<rparr>
             else s\<lparr>translatedSelection := None\<rparr>"
    from assms en False obtain s2 r b n c where
      "selectionBranches env sel ?s1 = Inr (s2, r, b, n, c)"
      by (cases "selectionBranches env sel ?s1") (auto simp: setSelection_def Let_def)
    then show ?thesis using full[OF en False refl _ assms] by blast
  qed
qed

lemma setSelection_frame:
  assumes "setSelection env sel s = Inr s'"
  shows "hist s' = hist s" and "flags s' = flags s" and "documentModel s' = documentModel s"
proof -
  have "hist s' = hist s \<and> flags s' = flags s \<and> documentModel s' = documentModel s"
    using assms
  proof (cases rule: setSelection_cases)
    case disabled
    then show ?thesis by simp
  next
    case shallow
    then show ?thesis by simp
  next
    case (full s1 s2 r b n c)
    have "hist s2 = hist s \<and> flags s2 = flags s \<and> documentModel s2 = documentModel s"
      using selectionBranches_frame[OF full(4)] full(3) by (simp split: if_splits)
    moreover have "hist s' = hist s2 \<and> flags s' = flags s2 \<and> documentModel s' = documentModel s2"
      using full(1,2,4,5) unfolding full(3) by (auto simp: setSelection_def Let_def)
    ultimately show ?thesis by simp
  qed
  then show "hist s' = hist s" and "flags s' = flags s" and "documentModel s' = documentModel s"
    by simp_all
qed

text \<open>While context changes are queued, setSelection emits a contextChange only together
  with an insertionAnnotationsChange, and at most one of them.\<close>

lemma setSelection_counts:
  assumes "setSelection env sel s = Inr s'"
  shows "(nIAC s' = nIAC s \<or> nIAC s' = nIAC s + 1) \<and>
         (queueingContextChanges s \<longrightarrow> nCC s' + nIAC s = nCC s + nIAC s')"
  using assms
proof (cases rule: setSelection_cases)
  case disabled
  then show ?thesis by simp
next
  case shallow
  then show ?thesis by simp
next
  case (full s1 s2 r b n c)
  have en1: "enabled s1" using full(1,3) by (simp split: if_splits)
  have c1: "nIAC s1 = nIAC s" "nCC s1 = nCC s" "flags s1 = flags s"
    using full(3) by (simp_all split: if_splits)
  have c2: "(nIAC s2 = nIAC s \<and> nCC s2 = nCC s) \<or> (nIAC s2 = nIAC s + 1 \<and> nCC s2 = nCC s + 1)"
    using selectionBranches_counts[OF full(4) en1] c1 by simp
  have f2: "flags s2 = flags s" using selectionBranches_frame(2)[OF full(4)] c1 by simp
  have c3: "nIAC s' = nIAC s2 \<and> (queueingContextChanges s \<longrightarrow> nCC s' = nCC s2)"
    using full(1,2,4,5) f2 unfolding full(3)
    by (auto simp: setSelection_def Let_def emitContextChange_queueing flags_def)
  with c2 show ?thesis by auto
qed


subsection \<open>The transaction loop\<close>

text \<open>Inside the loop the surface is enabled and transacting: the commit stores the
  translated selection and logs the documentUpdate, and cannot fail.\<close>

lemma commit_transacting:
  "enabled s \<Longrightarrow> transacting s \<Longrightarrow>
   commit env t b s =
     Inr (emit (DocumentUpdate t)
           (s\<lparr>documentModel := process env t b (documentModel s),
              translatedSelection := None,
              selection := translateByTransaction env t (selection s)\<rparr>))"
  by (simp add: commit_def onDocumentPreCommit_def onDocumentPreSynchronize_def
      onDocumentTransact_def setSelection_def Let_def)

lemma recordTransaction_fields [simp]:
  "enabled (recordTransaction b t s) = enabled s"
  "transacting (recordTransaction b t s) = transacting s"
  "queueingContextChanges (recordTransaction b t s) = queueingContextChanges s"
  "contextChangeQueued (recordTransaction b t s) = contextChangeQueued s"
  "documentModel (recordTransaction b t s) = documentModel s"
  "selection (recordTransaction b t s) = selection s"
  "emitted (recordTransaction b t s) = emitted s"
  "insertionAnnotations (recordTransaction b t s) = insertionAnnotations s"
  by (simp_all add: recordTransaction_def truncateUndoStack_def Let_def)

lemma recordTransaction_isStaging [simp]:
  "isStaging (recordTransaction b t s) = isStaging s"
  by (simp add: recordTransaction_def truncateUndoStack_def Let_def isStaging_def)

text \<open>The transactions of a list that are not no-ops, in order.\<close>

definition effective :: "('doc, 'tx, 'node, 'ts) env \<Rightarrow> 'tx list \<Rightarrow> 'tx list" where
  "effective env ts = filter (\<lambda>t. \<not> isNoOp env t) ts"

text \<open>The document after committing a list of transactions one after the other.\<close>

definition commitAll :: "('doc, 'tx, 'node, 'ts) env \<Rightarrow> bool \<Rightarrow> 'tx list \<Rightarrow> 'doc \<Rightarrow> 'doc" where
  "commitAll env staging ts d = foldl (\<lambda>d t. process env t staging d) d ts"

lemma applyTransactions_loop:
  assumes "enabled s" and "transacting s"
  shows "\<exists>s' cc'. applyTransactions env skip selB ts (s, cc) = Inr (s', cc') \<and>
           enabled s' \<and> transacting s' \<and>
           queueingContextChanges s' = queueingContextChanges s \<and>
           contextChangeQueued s' = contextChangeQueued s \<and>
           isStaging s' = isStaging s \<and>
           documentModel s' = commitAll env (isStaging s) (effective env ts) (documentModel s) \<and>
           emitted s' = emitted s @ map DocumentUpdate (effective env ts) \<and>
           (skip \<longrightarrow> hist s' = hist s) \<and>
           (cc' \<longleftrightarrow> cc \<or> (\<exists>t \<in> set (effective env ts). hasElementAttributeOperations env t))"
  using assms
proof (induction ts arbitrary: s cc)
  case Nil
  then show ?case by (simp add: effective_def commitAll_def)
next
  case (Cons t ts)
  show ?case
  proof (cases "isNoOp env t")
    case True
    with Cons.IH[OF Cons.prems, of cc] show ?thesis by (simp add: effective_def)
  next
    case False
    let ?s1 = "if \<not> skip then recordTransaction selB t s else s"
    let ?s2 = "emit (DocumentUpdate t)
           (?s1\<lparr>documentModel := process env t (isStaging ?s1) (documentModel ?s1),
              translatedSelection := None,
              selection := translateByTransaction env t (selection ?s1)\<rparr>)"
    have e1: "enabled ?s1" "transacting ?s1" using Cons.prems by simp_all
    have c: "commit env t (isStaging ?s1) ?s1 = Inr ?s2"
      by (rule commit_transacting[OF e1])
    have e2: "enabled ?s2" "transacting ?s2" using e1 by simp_all
    have "isStaging ?s2 = isStaging ?s1" by (simp add: isStaging_def)
    also have "\<dots> = isStaging s" by simp
    finally have st: "isStaging ?s2 = isStaging s" .
    from Cons.IH[OF e2, of "cc \<or> hasElementAttributeOperations env t"]
    obtain s' cc' where
      r: "applyTransactions env skip selB ts (?s2, cc \<or> hasElementAttributeOperations env t) = Inr (s', cc')"
      and p: "enabled s'" "transacting s'"
        "queueingContextChanges s' = queueingContextChanges ?s2"
        "contextChangeQueued s' = contextChangeQueued ?s2"
        "isStaging s' = isStaging ?s2"
        "documentModel s' = commitAll env (isStaging ?s2) (effective env ts) (documentModel ?s2)"
        "emitted s' = emitted ?s2 @ map DocumentUpdate (effective env ts)"
        "skip \<longrightarrow> hist s' = hist ?s2"
        "cc' \<longleftrightarrow> (cc \<or> hasElementAttributeOperations env t) \<or> (\<exists>t \<in> set (effective env ts). hasElementAttributeOperations env t)"
      by blast
    have "applyTransactions env skip selB (t # ts) (s, cc) = Inr (s', cc')"
      using False c r by (simp add: Let_def)
    moreover have "documentModel s' = commitAll env (isStaging s) (effective env (t # ts)) (documentModel s)"
      using p(6) False st by (simp add: effective_def commitAll_def)
    moreover have "emitted s' = emitted s @ map DocumentUpdate (effective env (t # ts))"
      using p(7) False by (simp add: effective_def)
    moreover have "skip \<longrightarrow> hist s' = hist s" using p(8) by simp
    moreover have "queueingContextChanges s' = queueingContextChanges s"
       "contextChangeQueued s' = contextChangeQueued s" "isStaging s' = isStaging s"
      using p(3,4,5) st by simp_all
    moreover have "cc' \<longleftrightarrow> cc \<or> (\<exists>t \<in> set (effective env (t # ts)). hasElementAttributeOperations env t)"
      using p(9) False by (auto simp: effective_def)
    ultimately show ?thesis using p(1,2) by blast
  qed
qed


lemma applyTransactions_skip_noop:
  "isNoOp env t \<Longrightarrow>
   applyTransactions env skip selB (t # ts) (s, cc) = applyTransactions env skip selB ts (s, cc)"
  by simp

lemma applyTransactions_step:
  assumes "\<not> isNoOp env t" and "enabled s" and "transacting s"
  shows "applyTransactions env skip selB (t # ts) (s, cc) =
     (let s1 = (if \<not> skip then recordTransaction selB t s else s)
      in applyTransactions env skip selB ts
           (emit (DocumentUpdate t)
              (s1\<lparr>documentModel := process env t (isStaging s1) (documentModel s1),
                  translatedSelection := None,
                  selection := translateByTransaction env t (selection s1)\<rparr>),
            cc \<or> hasElementAttributeOperations env t))"
proof -
  let ?s1 = "if \<not> skip then recordTransaction selB t s else s"
  have "enabled ?s1" "transacting ?s1" using assms by simp_all
  from commit_transacting[OF this] assms(1) show ?thesis by (simp add: Let_def)
qed

text \<open>Recording while staging: the transactions go to the top frame, in order.\<close>

lemma applyTransactions_staging:
  assumes "enabled s" and "transacting s" and "stagingStack s = fs @ [f]"
    and "applyTransactions env False selB ts (s, cc) = Inr (s', cc')"
  shows "\<exists>f'. stagingStack s' = fs @ [f'] \<and>
           st_transactions f' = st_transactions f @ effective env ts \<and>
           allowUndo f' = allowUndo f \<and>
           undoStack s' = undoStack s \<and> undoIndex s' = undoIndex s \<and>
           newTransactions s' = newTransactions s"
  using assms
proof (induction ts arbitrary: s cc f)
  case Nil
  then show ?case by (simp add: effective_def)
next
  case (Cons t ts)
  show ?case
  proof (cases "isNoOp env t")
    case True
    with Cons.prems(4) have "applyTransactions env False selB ts (s, cc) = Inr (s', cc')" by simp
    from Cons.IH[OF Cons.prems(1,2,3) this] True show ?thesis by (simp add: effective_def)
  next
    case False
    let ?f1 = "if st_transactions f = [] then f\<lparr>st_selectionBefore := selB\<rparr> else f"
    let ?f2 = "?f1\<lparr>st_transactions := st_transactions ?f1 @ [t]\<rparr>"
    let ?r = "recordTransaction selB t s"
    let ?s2 = "emit (DocumentUpdate t)
              (?r\<lparr>documentModel := process env t (isStaging ?r) (documentModel ?r),
                  translatedSelection := None,
                  selection := translateByTransaction env t (selection ?r)\<rparr>)"
    have rs: "stagingStack ?r = fs @ [?f2]" "undoStack ?r = undoStack s"
      "undoIndex ?r = undoIndex s" "newTransactions ?r = newTransactions s"
      using Cons.prems(3) by (simp_all add: recordTransaction_def isStaging_def Let_def)
    have e2: "enabled ?s2" "transacting ?s2" using Cons.prems(1,2) by simp_all
    have st2: "stagingStack ?s2 = fs @ [?f2]" using rs(1) by simp
    have run: "applyTransactions env False selB ts (?s2, cc \<or> hasElementAttributeOperations env t) = Inr (s', cc')"
      using Cons.prems(4) applyTransactions_step[OF False Cons.prems(1,2), of False selB ts cc]
      by (simp add: Let_def)
    from Cons.IH[OF e2 st2 run] obtain f' where
      "stagingStack s' = fs @ [f']" "st_transactions f' = st_transactions ?f2 @ effective env ts"
      "allowUndo f' = allowUndo ?f2" "undoStack s' = undoStack ?s2" "undoIndex s' = undoIndex ?s2"
      "newTransactions s' = newTransactions ?s2" by blast
    then show ?thesis using False rs by (auto simp: effective_def)
  qed
qed

text \<open>Recording while not staging: the first transaction that is not a no-op truncates
  the undo stack; all of them go to \<open>newTransactions\<close>.\<close>

lemma applyTransactions_not_staging:
  assumes "enabled s" and "transacting s" and "stagingStack s = []"
    and "applyTransactions env False selB ts (s, cc) = Inr (s', cc')"
  shows "stagingStack s' = [] \<and>
         newTransactions s' = newTransactions s @ effective env ts \<and>
         (if effective env ts = [] then undoStack s' = undoStack s \<and> undoIndex s' = undoIndex s
          else undoStack s' = undoStack (truncateUndoStack s) \<and> undoIndex s' = 0)"
  using assms
proof (induction ts arbitrary: s cc)
  case Nil
  then show ?case by (simp add: effective_def)
next
  case (Cons t ts)
  show ?case
  proof (cases "isNoOp env t")
    case True
    with Cons.prems(4) have "applyTransactions env False selB ts (s, cc) = Inr (s', cc')" by simp
    from Cons.IH[OF Cons.prems(1,2,3) this] True show ?thesis by (simp add: effective_def)
  next
    case False
    let ?r = "recordTransaction selB t s"
    let ?s2 = "emit (DocumentUpdate t)
              (?r\<lparr>documentModel := process env t (isStaging ?r) (documentModel ?r),
                  translatedSelection := None,
                  selection := translateByTransaction env t (selection ?r)\<rparr>)"
    have rs: "stagingStack ?r = []" "undoStack ?r = undoStack (truncateUndoStack s)"
      "undoIndex ?r = 0" "newTransactions ?r = newTransactions s @ [t]"
      using Cons.prems(3)
      by (simp_all add: recordTransaction_def isStaging_def Let_def truncateUndoStack_def)
    have e2: "enabled ?s2" "transacting ?s2" using Cons.prems(1,2) by simp_all
    have st2: "stagingStack ?s2 = []" using rs(1) by simp
    have run: "applyTransactions env False selB ts (?s2, cc \<or> hasElementAttributeOperations env t) = Inr (s', cc')"
      using Cons.prems(4) applyTransactions_step[OF False Cons.prems(1,2), of False selB ts cc]
      by (simp add: Let_def)
    have t2: "undoStack (truncateUndoStack ?s2) = undoStack ?s2" using rs(3)
      by (simp add: truncateUndoStack_def)
    from Cons.IH[OF e2 st2 run] t2 rs False show ?thesis
      by (auto simp: effective_def split: if_splits)
  qed
qed


lemma queueing_frame [simp]:
  "hist (startQueueingContextChanges s) = hist s"
  "documentModel (startQueueingContextChanges s) = documentModel s"
  "selection (startQueueingContextChanges s) = selection s"
  "enabled (startQueueingContextChanges s) = enabled s"
  "transacting (startQueueingContextChanges s) = transacting s"
  "queueingContextChanges (startQueueingContextChanges s) = True"
  "nCC (startQueueingContextChanges s) = nCC s"
  "nIAC (startQueueingContextChanges s) = nIAC s"
  "hist (stopQueueingContextChanges s) = hist s"
  "documentModel (stopQueueingContextChanges s) = documentModel s"
  "enabled (stopQueueingContextChanges s) = enabled s"
  "nIAC (stopQueueingContextChanges s) = nIAC s"
  by (simp_all add: startQueueingContextChanges_def stopQueueingContextChanges_def Let_def
      hist_def nCC_def nIAC_def countIAC_def emit_def)

lemma stopQueueingContextChanges_nCC:
  "nCC (stopQueueingContextChanges s) =
     (if queueingContextChanges s \<and> contextChangeQueued s then nCC s + 1 else nCC s)"
  by (simp add: stopQueueingContextChanges_def Let_def)

lemma hist_fields:
  assumes "hist s' = hist s"
  shows "selectionBefore s' = selectionBefore s" "newTransactions s' = newTransactions s"
    "stagingStack s' = stagingStack s" "undoStack s' = undoStack s" "undoIndex s' = undoIndex s"
    "historyTrackingInterval s' = historyTrackingInterval s" "enabled s' = enabled s"
    "isStaging s' = isStaging s"
  using assms by (simp_all add: hist_def isStaging_def)

lemma flags_fields:
  assumes "flags s' = flags s"
  shows "transacting s' = transacting s" "queueingContextChanges s' = queueingContextChanges s"
  using assms by (simp_all add: flags_def)

lemma DocumentUpdate_counts [simp]:
  "count_list (map DocumentUpdate xs) ContextChange = 0"
  "filter (\<lambda>e. case e of InsertionAnnotationsChange _ \<Rightarrow> True | _ \<Rightarrow> False)
     (map DocumentUpdate xs) = []"
  by (induction xs) simp_all

text \<open>The block of the transactions never fails on an enabled surface; it leaves the
  surface not transacting and emits neither a contextChange nor an
  insertionAnnotationsChange.\<close>

lemma processTransactions_result:
  assumes "enabled s"
  shows "\<exists>s3 cc. processTransactions env skip selB txs s = Inr (s3, cc) \<and>
           enabled s3 \<and>
           queueingContextChanges s3 = queueingContextChanges s \<and>
           contextChangeQueued s3 = contextChangeQueued s \<and>
           isStaging s3 = isStaging s \<and>
           documentModel s3 =
             commitAll env (isStaging s) (effective env (toArray txs)) (documentModel s) \<and>
           nCC s3 = nCC s \<and> nIAC s3 = nIAC s \<and>
           (skip \<longrightarrow> hist s3 = hist s)"
proof (cases "txs = NoTransactions")
  case True
  with assms show ?thesis
    by (auto simp: processTransactions_def toArray_def effective_def commitAll_def)
next
  case False
  let ?s0 = "s\<lparr>transacting := True\<rparr>"
  have e0: "enabled ?s0" "transacting ?s0" using assms by simp_all
  from applyTransactions_loop[OF e0, of env skip selB "toArray txs" False]
  obtain s2 cc where
    r: "applyTransactions env skip selB (toArray txs) (?s0, False) = Inr (s2, cc)"
    and p: "enabled s2" "queueingContextChanges s2 = queueingContextChanges ?s0"
      "contextChangeQueued s2 = contextChangeQueued ?s0" "isStaging s2 = isStaging ?s0"
      "documentModel s2 = commitAll env (isStaging ?s0) (effective env (toArray txs)) (documentModel ?s0)"
      "emitted s2 = emitted ?s0 @ map DocumentUpdate (effective env (toArray txs))"
      "skip \<longrightarrow> hist s2 = hist ?s0"
    by blast
  let ?s3 = "emit History (s2\<lparr>transacting := False\<rparr>)"
  have res: "processTransactions env skip selB txs s = Inr (?s3, cc)"
    using False r by (simp add: processTransactions_def)
  have cnt: "nCC s2 = nCC s" "nIAC s2 = nIAC s"
    using p(6) by (simp_all add: nCC_def nIAC_def countIAC_def)
  have "isStaging ?s3 = isStaging s" using p(4) by (simp add: isStaging_def)
  moreover have "documentModel ?s3 = commitAll env (isStaging s) (effective env (toArray txs)) (documentModel s)"
    using p(5) by (simp add: isStaging_def)
  ultimately show ?thesis using res p(1,2,3,7) cnt by simp
qed


lemma processTransactions_recorded:
  assumes "enabled s" and "processTransactions env False selB txs s = Inr (s3, cc)"
  shows "stagingStack s = fs @ [f] \<Longrightarrow>
           \<exists>f'. stagingStack s3 = fs @ [f'] \<and>
             st_transactions f' = st_transactions f @ effective env (toArray txs) \<and>
             allowUndo f' = allowUndo f \<and>
             undoStack s3 = undoStack s \<and> undoIndex s3 = undoIndex s \<and>
             newTransactions s3 = newTransactions s"
    and "stagingStack s = [] \<Longrightarrow>
           stagingStack s3 = [] \<and>
           newTransactions s3 = newTransactions s @ effective env (toArray txs) \<and>
           (if effective env (toArray txs) = []
            then undoStack s3 = undoStack s \<and> undoIndex s3 = undoIndex s
            else undoStack s3 = undoStack (truncateUndoStack s) \<and> undoIndex s3 = 0)"
proof -
  let ?s0 = "s\<lparr>transacting := True\<rparr>"
  have e0: "enabled ?s0" "transacting ?s0" using assms(1) by simp_all
  show "\<exists>f'. stagingStack s3 = fs @ [f'] \<and>
             st_transactions f' = st_transactions f @ effective env (toArray txs) \<and>
             allowUndo f' = allowUndo f \<and>
             undoStack s3 = undoStack s \<and> undoIndex s3 = undoIndex s \<and>
             newTransactions s3 = newTransactions s" if st: "stagingStack s = fs @ [f]"
  proof (cases "txs = NoTransactions")
    case True
    with assms(2) st show ?thesis
      by (auto simp: processTransactions_def toArray_def effective_def)
  next
    case False
    with assms(2) obtain s2 where
      r: "applyTransactions env False selB (toArray txs) (?s0, False) = Inr (s2, cc)"
      and s3: "s3 = emit History (s2\<lparr>transacting := False\<rparr>)"
      by (auto simp: processTransactions_def bindE_Inr_iff)
    have "stagingStack ?s0 = fs @ [f]" using st by simp
    from applyTransactions_staging[OF e0 this r] show ?thesis unfolding s3 by simp
  qed
  show "stagingStack s3 = [] \<and>
           newTransactions s3 = newTransactions s @ effective env (toArray txs) \<and>
           (if effective env (toArray txs) = []
            then undoStack s3 = undoStack s \<and> undoIndex s3 = undoIndex s
            else undoStack s3 = undoStack (truncateUndoStack s) \<and> undoIndex s3 = 0)"
    if st: "stagingStack s = []"
  proof (cases "txs = NoTransactions")
    case True
    with assms(2) st show ?thesis
      by (auto simp: processTransactions_def toArray_def effective_def)
  next
    case False
    with assms(2) obtain s2 where
      r: "applyTransactions env False selB (toArray txs) (?s0, False) = Inr (s2, cc)"
      and s3: "s3 = emit History (s2\<lparr>transacting := False\<rparr>)"
      by (auto simp: processTransactions_def bindE_Inr_iff)
    have "stagingStack ?s0 = []" using st by simp
    from applyTransactions_not_staging[OF e0 this r] show ?thesis unfolding s3
      by (simp add: truncateUndoStack_def)
  qed
qed

text \<open>No table selection is without cells: the selection handling then never raises.\<close>

definition cellsPresent :: "('doc, 'tx, 'node, 'ts) env \<Rightarrow> bool" where
  "cellsPresent env = (\<forall>d t. getMatrixCells env d t \<noteq> [])"

lemma selectionBranches_total:
  "cellsPresent env \<Longrightarrow> \<exists>x. selectionBranches env sel s = Inr x"
  by (cases sel) (auto simp: selectionBranches_def Let_def cellsPresent_def split: list.splits)

lemma setSelection_total:
  assumes "cellsPresent env"
  shows "\<exists>s'. setSelection env sel s = Inr s'"
proof -
  let ?s1 = "if selection s \<noteq> sel then s\<lparr>translatedSelection := None, selection := sel\<rparr>
             else s\<lparr>translatedSelection := None\<rparr>"
  from selectionBranches_total[OF assms] obtain s2 r b n c
    where "selectionBranches env sel ?s1 = Inr (s2, r, b, n, c)"
    by (metis prod_cases5)
  then show ?thesis by (auto simp: setSelection_def Let_def)
qed

lemma applySelectionChange_total:
  "cellsPresent env \<Longrightarrow> \<exists>s'. applySelectionChange env txs sel s = Inr s'"
  using setSelection_total[of env] by (auto simp: applySelectionChange_def split: option.splits)

lemma applySelectionChange_frame:
  assumes "applySelectionChange env txs sel s = Inr s'"
  shows "hist s' = hist s" and "flags s' = flags s" and "documentModel s' = documentModel s"
    and "(nIAC s' = nIAC s \<or> nIAC s' = nIAC s + 1) \<and>
         (queueingContextChanges s \<longrightarrow> nCC s' + nIAC s = nCC s + nIAC s')"
  using assms setSelection_frame[of env _ s s'] setSelection_counts[of env _ s s']
  by (auto simp: applySelectionChange_def split: option.splits if_splits)

text \<open>The three steps of changeInternal on an enabled surface.\<close>

lemma changeInternal_cases:
  assumes "enabled s" and "changeInternal env txs sel skip s = Inr s'"
  obtains s3 cc s4 where
    "processTransactions env skip (selection s) txs (startQueueingContextChanges s) = Inr (s3, cc)"
    "applySelectionChange env txs sel s3 = Inr s4"
    "s' = stopQueueingContextChanges
            (let s5 = (if selection s \<noteq> selection s3 \<and> selection s3 = selection s4
                       then emit (Select (selection s4)) s4 else s4)
             in if cc then emitContextChange s5 else s5)"
proof -
  from assms obtain x where
    1: "processTransactions env skip (selection s) txs (startQueueingContextChanges s) = Inr x"
    by (cases "processTransactions env skip (selection s) txs (startQueueingContextChanges s)")
       (auto simp: changeInternal_def Let_def)
  obtain s3 cc where x: "x = (s3, cc)" by (cases x)
  from assms 1 x obtain s4 where 2: "applySelectionChange env txs sel s3 = Inr s4"
    by (cases "applySelectionChange env txs sel s3") (auto simp: changeInternal_def Let_def)
  from assms 1 2 x have "s' = stopQueueingContextChanges
            (let s5 = (if selection s \<noteq> selection s3 \<and> selection s3 = selection s4
                       then emit (Select (selection s4)) s4 else s4)
             in if cc then emitContextChange s5 else s5)"
    by (simp add: changeInternal_def Let_def)
  with 1 2 x show ?thesis using that by blast
qed

lemma changeInternal_total:
  assumes "cellsPresent env"
  shows "\<exists>s'. changeInternal env txs sel skip s = Inr s'"
proof (cases "enabled s")
  case False
  then show ?thesis by (simp add: changeInternal_def)
next
  case True
  then have "enabled (startQueueingContextChanges s)" by simp
  from processTransactions_result[OF this, of env skip "selection s" txs]
  obtain s3 cc where
    1: "processTransactions env skip (selection s) txs (startQueueingContextChanges s) = Inr (s3, cc)"
    by blast
  from applySelectionChange_total[OF assms] obtain s4 where
    2: "applySelectionChange env txs sel s3 = Inr s4" by blast
  from True 1 2 show ?thesis by (simp add: changeInternal_def Let_def)
qed


text \<open>With \<open>skipUndoStack\<close> the history and the staging stack are not written.\<close>

lemma changeInternal_skip_hist:
  assumes "changeInternal env txs sel True s = Inr s'"
  shows "hist s' = hist s"
proof (cases "enabled s")
  case False
  with assms show ?thesis by (simp add: changeInternal_def)
next
  case True
  from True assms show ?thesis
  proof (cases rule: changeInternal_cases)
    case (1 s3 cc s4)
    have e1: "enabled (startQueueingContextChanges s)" using True by simp
    from processTransactions_result[OF e1, of env True "selection s" txs] 1(1)
    have "hist s3 = hist s" by auto
    moreover have "hist s4 = hist s3" by (rule applySelectionChange_frame(1)[OF 1(2)])
    moreover have "hist s' = hist s4" unfolding 1(3) by (simp add: Let_def)
    ultimately show ?thesis by simp
  qed
qed

lemma changeInternal_document:
  assumes "enabled s" and "changeInternal env txs sel skip s = Inr s'"
  shows "documentModel s' =
           commitAll env (isStaging s) (effective env (toArray txs)) (documentModel s) \<and>
         enabled s'"
  using assms
proof (cases rule: changeInternal_cases)
  case (1 s3 cc s4)
  have e1: "enabled (startQueueingContextChanges s)" using assms(1) by simp
  have st: "isStaging (startQueueingContextChanges s) = isStaging s"
    by (rule hist_fields(8)) simp
  from processTransactions_result[OF e1, of env skip "selection s" txs] 1(1) st
  have d3: "documentModel s3 = commitAll env (isStaging s) (effective env (toArray txs)) (documentModel s)"
    and e3: "enabled s3"
    by auto
  have d4: "documentModel s4 = documentModel s3" "enabled s4 = enabled s3"
    using applySelectionChange_frame(3)[OF 1(2)] hist_fields(7)[OF applySelectionChange_frame(1)[OF 1(2)]]
    by simp_all
  have h: "hist s' = hist s4" unfolding 1(3) by (simp add: Let_def)
  have "documentModel s' = documentModel s4" unfolding 1(3) by (simp add: Let_def)
  with d3 d4 e3 hist_fields(7)[OF h] show ?thesis by simp
qed

lemma popStaging_stack:
  assumes "isStaging s" and "popStaging env s = Inr (s', r)"
  shows "stagingStack s' = butlast (stagingStack s)"
    and "r = Some (st_transactions (last (stagingStack s)))"
proof -
  let ?s1 = "s\<lparr>stagingStack := butlast (stagingStack s)\<rparr>"
  let ?txs = "Transactions (map (reversed env) (rev (st_transactions (last (stagingStack s)))))"
  from assms obtain s2 where
    c: "changeInternal env ?txs None True ?s1 = Inr s2"
    and s': "s' = (if \<not> isStaging s2 then emit History (startHistoryTracking s2) else s2)"
    and r: "r = Some (st_transactions (last (stagingStack s)))"
    by (auto simp: popStaging_def Let_def bindE_Inr_iff)
  have "stagingStack s2 = stagingStack ?s1"
    using changeInternal_skip_hist[OF c] by (rule hist_fields)
  then show "stagingStack s' = butlast (stagingStack s)" unfolding s'
    by (simp add: startHistoryTracking_def)
  show "r = Some (st_transactions (last (stagingStack s)))" by (rule r)
qed

function popAllStaging_loop ::
  "('doc, 'tx, 'node, 'ts) env \<Rightarrow> ('doc, 'tx, 'node, 'ts) surface \<Rightarrow> 'tx list \<Rightarrow>
   error + (('doc, 'tx, 'node, 'ts) surface \<times> 'tx list)" where
  "popAllStaging_loop env s acc =
     (if isStaging s
      then (case popStaging env s of
              Inl e \<Rightarrow> Inl e
            | Inr (s', r) \<Rightarrow>
                popAllStaging_loop env s' ((case r of Some ts \<Rightarrow> ts | None \<Rightarrow> []) @ acc))
      else Inr (s, acc))"
  by pat_completeness auto
termination
proof (relation "measure (\<lambda>(env, s, acc). length (stagingStack s))")
  show "wf (measure (\<lambda>(env, s, acc). length (stagingStack s)))" by simp
next
  fix env :: "('doc, 'tx, 'node, 'ts) env" and s :: "('doc, 'tx, 'node, 'ts) surface"
    and acc :: "'tx list" and x s' r
  assume "isStaging s" and "popStaging env s = Inr x" and "(s', r) = x"
  then have "stagingStack s' = butlast (stagingStack s)" and "stagingStack s \<noteq> []"
    using popStaging_stack(1)[of s env s' r] by (auto simp: isStaging_def)
  then show "((env, s', (case r of None \<Rightarrow> [] | Some ts \<Rightarrow> ts) @ acc), (env, s, acc))
               \<in> measure (\<lambda>(env, s, acc). length (stagingStack s))"
    by simp
qed


definition popAllStaging ::
  "('doc, 'tx, 'node, 'ts) env \<Rightarrow> ('doc, 'tx, 'node, 'ts) surface \<Rightarrow>
   error + (('doc, 'tx, 'node, 'ts) surface \<times> 'tx list option)" where
  "popAllStaging env s =
     (if \<not> isStaging s then Inr (s, None)
      else bindE (popAllStaging_loop env s []) (\<lambda>(s', ts). Inr (s', Some ts)))"

subsection \<open>Undo and redo\<close>

definition undo ::
  "('doc, 'tx, 'node, 'ts) env \<Rightarrow> ('doc, 'tx, 'node, 'ts) surface \<Rightarrow>
   error + ('doc, 'tx, 'node, 'ts) surface" where
  "undo env s =
     (if \<not> canUndo s then Inr s
      else bindE (if isStaging s then bindE (popAllStaging env s) (\<lambda>(s', _). Inr s') else Inr s)
        (\<lambda>s1. let s2 = snd (breakpoint s1);
                  s3 = s2\<lparr>undoIndex := undoIndex s2 + 1\<rparr>
              in case js_index (undoStack s3) (int (length (undoStack s3)) - int (undoIndex s3)) of
                   None \<Rightarrow> Inr s3
                 | Some item \<Rightarrow>
                     changeInternal env
                       (Transactions (map (reversed env) (rev (transactions item))))
                       (Some (ck_selectionBefore item)) True s3))"

definition redo ::
  "('doc, 'tx, 'node, 'ts) env \<Rightarrow> ('doc, 'tx, 'node, 'ts) surface \<Rightarrow>
   error + ('doc, 'tx, 'node, 'ts) surface" where
  "redo env s =
     (if \<not> canRedo s then Inr s
      else (let s1 = snd (breakpoint s)
            in case js_index (undoStack s1) (int (length (undoStack s1)) - int (undoIndex s1)) of
                 None \<Rightarrow> Inr s1
               | Some item \<Rightarrow>
                   changeInternal env (Transactions (transactions item))
                     (Some (ck_selection item)) True (s1\<lparr>undoIndex := undoIndex s1 - 1\<rparr>)))"

subsection \<open>A small instance of the collaborators\<close>

text \<open>
  An instance to run the surface on: the document is a counter, a transaction adds a
  number to it, the reverse subtracts it and adding 0 is the no-op; an odd number changes
  an attribute. The character at offset \<open>n\<close> carries the annotation \<open>n\<close> alone, and the
  table selection \<open>t\<close> has the one cell \<open>t\<close>.
\<close>

definition counterEnv :: "(int, int, nat, nat) env" where
  "counterEnv =
     \<lparr>isNoOp = (\<lambda>t. t = 0),
      reversed = (\<lambda>t. - t),
      hasElementAttributeOperations = (\<lambda>t. odd t),
      process = (\<lambda>t staging d. d + t),
      translateByTransaction = (\<lambda>t sel. sel),
      getBranchNodeFromOffset = (\<lambda>d n. Obj n),
      getNodeFromOffset = (\<lambda>d n. None),
      getOuterRange = (\<lambda>d n. veRange n n),
      getMatrixCells = (\<lambda>d t. [t]),
      getInsertionAnnotationsFromRange = (\<lambda>d r. [rstart r]),
      getAnnotationsFromOffset = (\<lambda>d n. [n]),
      getAnnotationsFromRange = (\<lambda>d r all. []),
      getLength = (\<lambda>d. 0),
      annotationName = (\<lambda>d i. [])\<rparr>"

text \<open>The surface of a new document holding 0.\<close>

definition surface0 :: "(int, int, nat, nat) surface" where
  "surface0 = VeDmSurface 0"


subsection \<open>Events are only appended\<close>

lemma emit_prefix [simp]: "prefix (emitted s) (emitted (emit e s))"
  by (simp add: emit_def)

lemma emitContextChange_prefix [simp]: "prefix (emitted s) (emitted (emitContextChange s))"
  by (simp add: emitContextChange_def emit_def)

lemma stopQueueingContextChanges_prefix [simp]:
  "prefix (emitted s) (emitted (stopQueueingContextChanges s))"
  by (simp add: stopQueueingContextChanges_def emit_def Let_def)

lemma setInsertionAnnotations_prefix [simp]:
  "prefix (emitted s) (emitted (setInsertionAnnotations a s))"
  by (simp add: setInsertionAnnotations_def emit_def Let_def)

lemma selectionBranches_prefix:
  "selectionBranches env sel s = Inr (s', r, b, n, c) \<Longrightarrow> prefix (emitted s) (emitted s')"
  by (cases sel; auto simp: selectionBranches_def Let_def split: if_splits list.splits)

lemma setSelection_prefix:
  assumes "setSelection env sel s = Inr s'"
  shows "prefix (emitted s) (emitted s')"
  using assms
proof (cases rule: setSelection_cases)
  case disabled
  then show ?thesis by simp
next
  case shallow
  then show ?thesis by simp
next
  case (full s1 s2 r b n c)
  have "emitted s1 = emitted s" using full(3) by (simp split: if_splits)
  with selectionBranches_prefix[OF full(4)] have 1: "prefix (emitted s) (emitted s2)" by simp
  have 2: "prefix (emitted s2) (emitted s')"
    using full(1,2,4,5) unfolding full(3)
    by (auto simp: setSelection_def Let_def emitContextChange_def emit_def)
  from 1 2 show ?thesis by (rule prefix_order.trans)
qed

lemma applySelectionChange_prefix:
  "applySelectionChange env txs sel s = Inr s' \<Longrightarrow> prefix (emitted s) (emitted s')"
  using setSelection_prefix[of env _ s s']
  by (auto simp: applySelectionChange_def split: option.splits if_splits)

lemma processTransactions_prefix:
  assumes "enabled s" and "processTransactions env skip selB txs s = Inr (s3, cc)"
  shows "prefix (emitted s) (emitted s3)"
proof (cases "txs = NoTransactions")
  case True
  with assms(2) show ?thesis by (simp add: processTransactions_def)
next
  case False
  let ?s0 = "s\<lparr>transacting := True\<rparr>"
  have e0: "enabled ?s0" "transacting ?s0" using assms(1) by simp_all
  from applyTransactions_loop[OF e0, of env skip selB "toArray txs" False]
  obtain s2 c2 where
    r: "applyTransactions env skip selB (toArray txs) (?s0, False) = Inr (s2, c2)"
    and p: "emitted s2 = emitted ?s0 @ map DocumentUpdate (effective env (toArray txs))"
    by blast
  from assms(2) False r have "s3 = emit History (s2\<lparr>transacting := False\<rparr>)"
    by (simp add: processTransactions_def)
  with p show ?thesis by simp
qed

lemma changeInternal_prefix:
  assumes "changeInternal env txs sel skip s = Inr s'"
  shows "prefix (emitted s) (emitted s')"
proof (cases "enabled s")
  case False
  with assms show ?thesis by (simp add: changeInternal_def)
next
  case True
  from True assms show ?thesis
  proof (cases rule: changeInternal_cases)
    case (1 s3 cc s4)
    have e1: "enabled (startQueueingContextChanges s)" using True by simp
    have "emitted (startQueueingContextChanges s) = emitted s"
      by (simp add: startQueueingContextChanges_def)
    with processTransactions_prefix[OF e1 1(1)] have a: "prefix (emitted s) (emitted s3)" by simp
    have b: "prefix (emitted s3) (emitted s4)" by (rule applySelectionChange_prefix[OF 1(2)])
    let ?s5 = "if selection s \<noteq> selection s3 \<and> selection s3 = selection s4
                       then emit (Select (selection s4)) s4 else s4"
    let ?s6 = "if cc then emitContextChange ?s5 else ?s5"
    have c: "prefix (emitted s4) (emitted ?s5)" by simp
    have d: "prefix (emitted ?s5) (emitted ?s6)" by simp
    have s': "s' = stopQueueingContextChanges ?s6" unfolding 1(3) by (simp add: Let_def)
    have e: "prefix (emitted ?s6) (emitted s')" unfolding s'
      by (rule stopQueueingContextChanges_prefix)
    from a b c d e show ?thesis by (meson prefix_order.trans)
  qed
qed

text \<open>One call of changeInternal emits at most one insertionAnnotationsChange, and at most
  one contextChange beside those that come with an insertionAnnotationsChange.\<close>

lemma changeInternal_counts:
  assumes "changeInternal env txs sel skip s = Inr s'"
  shows "nIAC s' \<le> nIAC s + 1 \<and> nCC s' + nIAC s \<le> nCC s + nIAC s' + 1"
proof (cases "enabled s")
  case False
  with assms show ?thesis by (simp add: changeInternal_def)
next
  case True
  from True assms show ?thesis
  proof (cases rule: changeInternal_cases)
    case (1 s3 cc s4)
    let ?s1 = "startQueueingContextChanges s"
    have e1: "enabled ?s1" using True by simp
    from processTransactions_result[OF e1, of env skip "selection s" txs] 1(1)
    have c3: "nCC s3 = nCC s" "nIAC s3 = nIAC s" and q3: "queueingContextChanges s3"
      by auto
    have c4: "nIAC s4 = nIAC s3 \<or> nIAC s4 = nIAC s3 + 1" "nCC s4 + nIAC s3 = nCC s3 + nIAC s4"
      using applySelectionChange_frame(4)[OF 1(2)] q3 by auto
    have q4: "queueingContextChanges s4"
      using flags_fields(2)[OF applySelectionChange_frame(2)[OF 1(2)]] q3 by simp
    let ?s5 = "if selection s \<noteq> selection s3 \<and> selection s3 = selection s4
                       then emit (Select (selection s4)) s4 else s4"
    let ?s6 = "if cc then emitContextChange ?s5 else ?s5"
    have q5: "queueingContextChanges ?s5" using q4 by simp
    have c5: "nCC ?s5 = nCC s4" "nIAC ?s5 = nIAC s4" by simp_all
    have c6: "nCC ?s6 = nCC s4" "nIAC ?s6 = nIAC s4"
      using emitContextChange_queueing[OF q5] c5 by (simp_all del: emit_counts)
    have s': "s' = stopQueueingContextChanges ?s6" unfolding 1(3) by (simp add: Let_def)
    have "nCC s' \<le> nCC ?s6 + 1" "nIAC s' = nIAC ?s6"
      unfolding s' by (simp_all add: stopQueueingContextChanges_nCC del: emit_counts)
    with c6 c4 c3 show ?thesis by auto
  qed
qed


section \<open>Claims about the surface\<close>

text \<open>
  C9. While the surface is transacting (inside the transaction loop of change, where it
  is enabled), setSelection only stores the selection and clears the translated
  selection: the branch nodes, the selected node, the insertion and the selected
  annotations and the collapsed flag keep their values, and no event is emitted.
\<close>

theorem setSelection_shallow_while_transacting:
  assumes "enabled s" and "transacting s"
  shows "\<exists>s'. setSelection env sel s = Inr s' \<and>
           s' = s\<lparr>translatedSelection := None, selection := sel\<rparr> \<and>
           selection s' = sel \<and> translatedSelection s' = None \<and>
           branchNodes s' = branchNodes s \<and> selectedNode s' = selectedNode s \<and>
           insertionAnnotations s' = insertionAnnotations s \<and>
           selectedAnnotations s' = selectedAnnotations s \<and>
           isCollapsed s' = isCollapsed s \<and> emitted s' = emitted s"
  using assms by (simp add: setSelection_def)

theorem setSelection_shallow_while_transacting_witness:
  "enabled (surface0\<lparr>transacting := True\<rparr>) \<and> transacting (surface0\<lparr>transacting := True\<rparr>) \<and>
   setSelection counterEnv (LinearSelection (veRange 2 5)) (surface0\<lparr>transacting := True\<rparr>) =
     Inr (surface0\<lparr>transacting := True, translatedSelection := None,
                   selection := LinearSelection (veRange 2 5)\<rparr>)"
  using setSelection_shallow_while_transacting
    [of "surface0\<lparr>transacting := True\<rparr>" counterEnv "LinearSelection (veRange 2 5)"]
  by (simp add: surface0_def VeDmSurface_def)

text \<open>
  The guarded mutation methods. On a disabled surface change and changeInternal,
  setSelection, setInsertionAnnotations, addInsertionAnnotations,
  removeInsertionAnnotations (whatever their argument), breakpoint, undo and redo return
  without changing the state, without emitting an event and without raising an error.
  The staging methods have no such guard; what they do on a disabled surface is
  evaluated further down.
\<close>

theorem disabled_surface_inert:
  assumes "\<not> enabled s"
  shows "change env txs sel s = Inr s \<and>
         changeInternal env txs sel skip s = Inr s \<and>
         setSelection env sel' s = Inr s \<and>
         setInsertionAnnotations a s = s \<and>
         addInsertionAnnotations x s = Inr s \<and>
         removeInsertionAnnotations x s = Inr s \<and>
         breakpoint s = (False, s) \<and>
         undo env s = Inr s \<and>
         redo env s = Inr s"
  using assms
  by (simp add: change_def changeInternal_def setSelection_def setInsertionAnnotations_def
      addInsertionAnnotations_def removeInsertionAnnotations_def breakpoint_def undo_def
      redo_def canUndo_def canRedo_def)

theorem disabled_surface_inert_witness:
  "\<not> enabled (disable surface0) \<and>
   change counterEnv (Transactions [1, 2]) (Some (LinearSelection (veRange 1 1))) (disable surface0)
     = Inr (disable surface0) \<and>
   addInsertionAnnotations NotAnnotations (disable surface0) = Inr (disable surface0) \<and>
   undo counterEnv (disable surface0) = Inr (disable surface0)"
  using disabled_surface_inert
    [of "disable surface0" counterEnv "Transactions [1, 2]" "Some (LinearSelection (veRange 1 1))"
        False NullSelection None NotAnnotations]
  by (simp add: disable_def emit_def stopHistoryTracking_def surface0_def VeDmSurface_def)

text \<open>
  C3 (amended). During one call of change, at most one contextChange is emitted for all
  the triggers that go through emitContextChange (transactions that change attributes,
  the reprocessing of the selection, the selected annotations): it is the one flushed by
  stopQueueingContextChanges. setInsertionAnnotations does not go through the queue: the
  one call that the reprocessing of the selection may make emits its own contextChange
  at once, together with an insertionAnnotationsChange. So the events \<open>evs\<close> of the call
  hold at most one insertionAnnotationsChange, and at most one contextChange more than
  that.
\<close>

theorem change_contextChange_coalescing:
  assumes "change env txs sel s = Inr s'"
  shows "\<exists>evs. emitted s' = emitted s @ evs \<and> countIAC evs \<le> 1 \<and>
           count_list evs ContextChange \<le> countIAC evs + 1 \<and>
           count_list evs ContextChange \<le> 2"
proof -
  from assms have c: "changeInternal env txs sel False s = Inr s'" by (simp add: change_def)
  from changeInternal_prefix[OF c] obtain evs where evs: "emitted s' = emitted s @ evs"
    by (auto simp: prefix_def)
  have "nCC s' = nCC s + count_list evs ContextChange" "nIAC s' = nIAC s + countIAC evs"
    using evs by (simp_all add: nCC_def nIAC_def countIAC_def)
  with changeInternal_counts[OF c] evs show ?thesis by auto
qed

theorem change_contextChange_coalescing_witness:
  "\<exists>s'. change counterEnv (Transactions [1, 2, 0, 3]) None surface0 = Inr s' \<and>
     (\<exists>evs. emitted s' = emitted surface0 @ evs \<and> countIAC evs \<le> 1 \<and>
        count_list evs ContextChange \<le> countIAC evs + 1 \<and> count_list evs ContextChange \<le> 2)"
proof -
  have "\<exists>s'. change counterEnv (Transactions [1, 2, 0, 3]) None surface0 = Inr s'"
    unfolding change_def by (rule changeInternal_total) (simp add: cellsPresent_def counterEnv_def)
  then obtain s' where r: "change counterEnv (Transactions [1, 2, 0, 3]) None surface0 = Inr s'"
    by blast
  from change_contextChange_coalescing[OF r] r show ?thesis by blast
qed

text \<open>
  C3 as stated fails: on a new surface, one call of change that sets a collapsed linear
  selection emits two contextChange events, one by setInsertionAnnotations and one by
  stopQueueingContextChanges.
\<close>

theorem change_two_contextChanges_counterexample:
  "emitted surface0 = [] \<and>
   map_sum id emitted (change counterEnv NoTransactions (Some (LinearSelection (veRange 1 1))) surface0) =
     Inr [InsertionAnnotationsChange [1], ContextChange,
          Select (LinearSelection (veRange 1 1)), Focus, ContextChange]"
  by (simp add: change_def changeInternal_def surface0_def VeDmSurface_def Let_def
     startQueueingContextChanges_def processTransactions_def applySelectionChange_def
     setSelection_def selectionBranches_def counterEnv_def veRange_def range_isCollapsed_def
     rstart_def rend_def getSelectedNodeFromSelection_def equalsInOrder_def compareTo_def
     setInsertionAnnotations_def emit_def emitContextChange_def stopQueueingContextChanges_def
     isNull_def)

text \<open>
  C4. When at least one undo has not been redone (\<open>0 < undoIndex\<close>, within the undo stack)
  and change commits a transaction that is not a no-op while the surface is enabled and
  not staging, the top \<open>undoIndex\<close> checkpoints are removed from the undo stack and the
  index is reset to 0, so that canRedo is false afterwards. The call returns whenever no
  table selection is without cells.
\<close>

theorem change_truncates_history:
  assumes "enabled s" and "\<not> isStaging s" and "0 < undoIndex s"
    and "undoIndex s \<le> length (undoStack s)"
    and "\<exists>t \<in> set (toArray txs). \<not> isNoOp env t"
  shows "(\<forall>s'. change env txs sel s = Inr s' \<longrightarrow>
            undoStack s' = take (length (undoStack s) - undoIndex s) (undoStack s) \<and>
            undoIndex s' = 0 \<and> \<not> canRedo s') \<and>
         (cellsPresent env \<longrightarrow> (\<exists>s'. change env txs sel s = Inr s'))"
proof (intro conjI allI impI)
  assume "cellsPresent env"
  then show "\<exists>s'. change env txs sel s = Inr s'"
    unfolding change_def by (rule changeInternal_total)
next
  fix s' assume "change env txs sel s = Inr s'"
  then have c: "changeInternal env txs sel False s = Inr s'" by (simp add: change_def)
  from assms(5) have eff: "effective env (toArray txs) \<noteq> []"
    by (auto simp: effective_def filter_empty_conv)
  from assms(1) c
  have "undoStack s' = take (length (undoStack s) - undoIndex s) (undoStack s) \<and> undoIndex s' = 0"
  proof (cases rule: changeInternal_cases)
    case (1 s3 cc s4)
    let ?s1 = "startQueueingContextChanges s"
    have h1: "hist ?s1 = hist s" by simp
    have e1: "enabled ?s1" using assms(1) by simp
    have st1: "stagingStack ?s1 = []"
      using hist_fields(3)[OF h1] assms(2) by (simp add: isStaging_def)
    from processTransactions_recorded(2)[OF e1 1(1) st1] eff
    have 3: "undoStack s3 = undoStack (truncateUndoStack ?s1)" "undoIndex s3 = 0" by simp_all
    have "undoStack (truncateUndoStack ?s1) = take (length (undoStack s) - undoIndex s) (undoStack s)"
    proof -
      have "nat (int (length (undoStack s)) - int (undoIndex s)) = length (undoStack s) - undoIndex s"
        by arith
      then show ?thesis using assms(3,4) hist_fields(4,5)[OF h1]
        by (simp add: truncateUndoStack_def slice0_def)
    qed
    with 3 have 3: "undoStack s3 = take (length (undoStack s) - undoIndex s) (undoStack s)"
      "undoIndex s3 = 0" by simp_all
    have h4: "hist s4 = hist s3" by (rule applySelectionChange_frame(1)[OF 1(2)])
    have h': "hist s' = hist s4" unfolding 1(3) by (simp add: Let_def)
    from 3 hist_fields(4,5)[OF h4] hist_fields(4,5)[OF h'] show ?thesis by simp
  qed
  then show "undoStack s' = take (length (undoStack s) - undoIndex s) (undoStack s)"
    and "undoIndex s' = 0" and "\<not> canRedo s'"
    by (simp_all add: canRedo_def)
qed


text \<open>A surface with two checkpoints, the second of them undone: two edits, each
  followed by a breakpoint, then one undo.\<close>

definition undoneSurface :: "error + (int, int, nat, nat) surface" where
  "undoneSurface =
     bindE (change counterEnv (OneTransaction 1) None surface0) (\<lambda>a.
     bindE (change counterEnv (OneTransaction 2) None (snd (breakpoint a))) (\<lambda>b.
     undo counterEnv (snd (breakpoint b))))"

lemmas surface_defs =
  change_def changeInternal_def surface0_def VeDmSurface_def Let_def
  startQueueingContextChanges_def processTransactions_def applySelectionChange_def
  setSelection_def selectionBranches_def counterEnv_def veRange_def range_isCollapsed_def
  rstart_def rend_def getSelectedNodeFromSelection_def equalsInOrder_def compareTo_def
  setInsertionAnnotations_def emit_def emitContextChange_def stopQueueingContextChanges_def
  isNull_def toArray_def recordTransaction_def isStaging_def truncateUndoStack_def commit_def
  onDocumentPreCommit_def onDocumentPreSynchronize_def onDocumentTransact_def
  breakpoint_def resetHistoryTrackingInterval_def startHistoryTracking_def
  stopHistoryTracking_def undo_def redo_def canUndo_def canRedo_def hasBeenModified_def
  js_index_def slice0_def doesStagingAllowUndo_def getStaging_def

lemma undoneSurface_eval:
  "\<exists>s. undoneSurface = Inr s \<and> enabled s \<and> \<not> isStaging s \<and> undoIndex s = 1 \<and>
       length (undoStack s) = 2 \<and> documentModel s = 1"
  by (simp add: undoneSurface_def surface_defs)

lemma cellsPresent_counterEnv: "cellsPresent counterEnv"
  by (simp add: cellsPresent_def counterEnv_def)

theorem change_truncates_history_witness:
  "\<exists>s. undoneSurface = Inr s \<and> enabled s \<and> \<not> isStaging s \<and> undoIndex s = 1 \<and>
       length (undoStack s) = 2 \<and>
       (\<exists>s'. change counterEnv (OneTransaction 5) None s = Inr s' \<and>
             undoStack s' = take 1 (undoStack s) \<and> undoIndex s' = 0 \<and> \<not> canRedo s')"
proof -
  from undoneSurface_eval obtain s where
    s: "undoneSurface = Inr s" "enabled s" "\<not> isStaging s" "undoIndex s = 1"
       "length (undoStack s) = 2"
    by blast
  have t: "\<exists>t \<in> set (toArray (OneTransaction 5)). \<not> isNoOp counterEnv t"
    by (simp add: toArray_def counterEnv_def)
  from change_truncates_history[OF s(2,3) _ _ t, of None] s(4,5) cellsPresent_counterEnv
  have "\<exists>s'. change counterEnv (OneTransaction 5) None s = Inr s' \<and>
             undoStack s' = take 1 (undoStack s) \<and> undoIndex s' = 0 \<and> \<not> canRedo s'"
    by auto
  with s show ?thesis by blast
qed

subsection \<open>Staging on a disabled surface\<close>

text \<open>A surface with one staged edit: a staging frame is pushed, and a change takes the
  document from 0 to 1.\<close>

definition stagedSurface :: "error + (int, int, nat, nat) surface" where
  "stagedSurface = change counterEnv (OneTransaction 1) None (pushStaging False surface0)"

text \<open>
  C7. A disabled surface is not inert under the staging methods. When the surface with
  the staged edit is disabled, popStaging still removes the frame, returns its
  transaction and emits a history event, but the rollback that it announces (\<^verbatim>\<open>Not
  applying, so rollback transactions\<close>) goes through changeInternal, which is guarded: the
  document keeps the staged edit, with no frame left to undo it. pushStaging on a
  disabled surface that is not staging pushes a frame and emits a history event, and
  applyStaging of the only frame moves the staged transactions to the new transactions,
  where the guarded breakpoint leaves them, and emits a history event.
\<close>

theorem disabled_popStaging_drops_frame:
  "map_sum id (\<lambda>s. (enabled s, documentModel s, map st_transactions (stagingStack s), emitted s))
     (map_sum id disable stagedSurface) =
     Inr (False, 1, [[1]], [History, DocumentUpdate 1, History, ContextChange, History]) \<and>
   map_sum id (\<lambda>(s, r). (r, enabled s, documentModel s, stagingStack s, emitted s))
     (bindE stagedSurface (\<lambda>s. popStaging counterEnv (disable s))) =
     Inr (Some [1], False, 1, [],
          [History, DocumentUpdate 1, History, ContextChange, History, History]) \<and>
   (\<lambda>s. (map st_transactions (stagingStack s), emitted s)) (pushStaging True (disable surface0)) =
     ([[]], [History, History]) \<and>
   map_sum id (\<lambda>s. (stagingStack s, newTransactions s, undoStack s, emitted s))
     (map_sum id (\<lambda>s. applyStaging (disable s)) stagedSurface) =
     Inr ([], [1], [],
          [History, DocumentUpdate 1, History, ContextChange, History, History])"
  by (simp add: stagedSurface_def surface_defs pushStaging_def popStaging_def applyStaging_def
      disable_def)

subsection \<open>A staging session\<close>

text \<open>A sequence of calls of change, each with its transactions and its optional
  selection; the first error ends it.\<close>

fun changeAll ::
  "('doc, 'tx, 'node, 'ts) env \<Rightarrow> ('tx transactions_arg \<times> 'ts selection option) list \<Rightarrow>
   ('doc, 'tx, 'node, 'ts) surface \<Rightarrow> error + ('doc, 'tx, 'node, 'ts) surface" where
  "changeAll env [] s = Inr s"
| "changeAll env ((txs, sel) # calls) s = bindE (change env txs sel s) (changeAll env calls)"

text \<open>The transactions that a sequence of calls records: those that are not no-ops.\<close>

definition recorded ::
  "('doc, 'tx, 'node, 'ts) env \<Rightarrow> ('tx transactions_arg \<times> 'ts selection option) list \<Rightarrow> 'tx list" where
  "recorded env calls = effective env (concat (map (\<lambda>(txs, sel). toArray txs) calls))"

lemma commitAll_append:
  "commitAll env b (xs @ ys) d = commitAll env b ys (commitAll env b xs d)"
  by (simp add: commitAll_def)

lemma effective_append: "effective env (xs @ ys) = effective env xs @ effective env ys"
  by (simp add: effective_def)

lemma change_staging:
  assumes "enabled s" and "stagingStack s = fs @ [f]" and "change env txs sel s = Inr s'"
  shows "\<exists>f'. stagingStack s' = fs @ [f'] \<and>
           st_transactions f' = st_transactions f @ effective env (toArray txs) \<and>
           documentModel s' = commitAll env True (effective env (toArray txs)) (documentModel s) \<and>
           enabled s'"
proof -
  from assms(3) have c: "changeInternal env txs sel False s = Inr s'" by (simp add: change_def)
  have st: "isStaging s" using assms(2) by (simp add: isStaging_def)
  from changeInternal_document[OF assms(1) c] st
  have d: "documentModel s' = commitAll env True (effective env (toArray txs)) (documentModel s)"
    and e: "enabled s'" by simp_all
  from assms(1) c
  have "\<exists>f'. stagingStack s' = fs @ [f'] \<and>
           st_transactions f' = st_transactions f @ effective env (toArray txs)"
  proof (cases rule: changeInternal_cases)
    case (1 s3 cc s4)
    let ?s1 = "startQueueingContextChanges s"
    have h1: "hist ?s1 = hist s" by simp
    have e1: "enabled ?s1" using assms(1) by simp
    have st1: "stagingStack ?s1 = fs @ [f]" using hist_fields(3)[OF h1] assms(2) by simp
    from processTransactions_recorded(1)[OF e1 1(1) st1] obtain f' where
      f': "stagingStack s3 = fs @ [f']"
        "st_transactions f' = st_transactions f @ effective env (toArray txs)" by blast
    have h4: "hist s4 = hist s3" by (rule applySelectionChange_frame(1)[OF 1(2)])
    have h': "hist s' = hist s4" unfolding 1(3) by (simp add: Let_def)
    from f' hist_fields(3)[OF h4] hist_fields(3)[OF h'] show ?thesis by simp
  qed
  with d e show ?thesis by blast
qed

lemma changeAll_staging:
  assumes "enabled s" and "stagingStack s = fs @ [f]" and "changeAll env calls s = Inr s'"
  shows "\<exists>f'. stagingStack s' = fs @ [f'] \<and>
           st_transactions f' = st_transactions f @ recorded env calls \<and>
           documentModel s' = commitAll env True (recorded env calls) (documentModel s) \<and>
           enabled s'"
  using assms
proof (induction calls arbitrary: s f)
  case Nil
  then show ?case by (simp add: recorded_def effective_def commitAll_def)
next
  case (Cons call calls)
  obtain txs sel where call: "call = (txs, sel)" by (cases call)
  from Cons.prems(3) call obtain s1 where
    1: "change env txs sel s = Inr s1" and 2: "changeAll env calls s1 = Inr s'"
    by (auto simp: bindE_Inr_iff)
  from change_staging[OF Cons.prems(1,2) 1] obtain f1 where
    f1: "stagingStack s1 = fs @ [f1]"
      "st_transactions f1 = st_transactions f @ effective env (toArray txs)"
      "documentModel s1 = commitAll env True (effective env (toArray txs)) (documentModel s)"
      "enabled s1" by blast
  from Cons.IH[OF f1(4) f1(1) 2] obtain f' where
    f': "stagingStack s' = fs @ [f']"
      "st_transactions f' = st_transactions f1 @ recorded env calls"
      "documentModel s' = commitAll env True (recorded env calls) (documentModel s1)"
      "enabled s'" by blast
  have r: "recorded env (call # calls) = effective env (toArray txs) @ recorded env calls"
    by (simp add: recorded_def call effective_append)
  from f' f1 show ?case by (simp add: r commitAll_append)
qed

text \<open>Committing the reversed transactions in reverse order undoes a sequence of
  commits, when each reversed transaction undoes its transaction.\<close>

lemma commitAll_reversed:
  assumes "\<forall>t d b b'. process env (reversed env t) b' (process env t b d) = d"
  shows "commitAll env b' (map (reversed env) (rev ts)) (commitAll env b ts d) = d"
proof (induction ts arbitrary: d)
  case Nil
  then show ?case by (simp add: commitAll_def)
next
  case (Cons t ts)
  have "commitAll env b' (map (reversed env) (rev (t # ts))) (commitAll env b (t # ts) d) =
        process env (reversed env t) b'
          (commitAll env b' (map (reversed env) (rev ts)) (commitAll env b ts (process env t b d)))"
    by (simp add: commitAll_def)
  also have "\<dots> = process env (reversed env t) b' (process env t b d)"
    by (simp add: Cons.IH)
  also have "\<dots> = d" using assms by simp
  finally show ?case .
qed


lemma pushStaging_fields:
  "stagingStack (pushStaging allow s) =
     stagingStack s @ [\<lparr>st_transactions = [], st_selectionBefore = NullSelection, allowUndo = allow\<rparr>]"
  "documentModel (pushStaging allow s) = documentModel s"
  "enabled (pushStaging allow s) = enabled s"
  by (simp_all add: pushStaging_def Let_def breakpoint_def stopHistoryTracking_def
      startHistoryTracking_def resetHistoryTrackingInterval_def emit_def)

lemma effective_reversed:
  assumes "\<forall>t. \<not> isNoOp env t \<longrightarrow> \<not> isNoOp env (reversed env t)"
  shows "effective env (map (reversed env) (rev (effective env ts))) =
         map (reversed env) (rev (effective env ts))"
  using assms by (simp add: effective_def filter_map comp_def)

text \<open>
  C1. On an enabled surface, after pushStaging and any sequence of calls of change,
  popStaging returns the transactions recorded in the frame (those of the calls that are
  not no-ops, in order) and removes the frame; the document it leaves is the one before
  popStaging with the reversed forms of the recorded transactions committed in reverse
  order, which is the document as it was before pushStaging. The hypotheses on the
  absent Transaction class: committing the reverse of a transaction after it restores the
  document, and the reverse of a transaction that is not a no-op is not a no-op. The call
  of popStaging returns whenever no table selection is without cells.
\<close>

theorem staging_round_trip:
  assumes "enabled s"
    and "\<forall>t d b b'. process env (reversed env t) b' (process env t b d) = d"
    and "\<forall>t. \<not> isNoOp env t \<longrightarrow> \<not> isNoOp env (reversed env t)"
    and "changeAll env calls (pushStaging allow s) = Inr s1"
  shows "(\<forall>s2 r. popStaging env s1 = Inr (s2, r) \<longrightarrow>
            r = Some (recorded env calls) \<and>
            stagingStack s2 = stagingStack s \<and>
            documentModel s2 =
              commitAll env (isStaging s) (map (reversed env) (rev (recorded env calls)))
                (documentModel s1) \<and>
            documentModel s2 = documentModel s) \<and>
         (cellsPresent env \<longrightarrow> (\<exists>s2 r. popStaging env s1 = Inr (s2, r)))"
proof -
  let ?frame = "\<lparr>st_transactions = [], st_selectionBefore = NullSelection, allowUndo = allow\<rparr>"
  let ?rec = "recorded env calls"
  let ?rev = "map (reversed env) (rev ?rec)"
  have p: "enabled (pushStaging allow s)"
    "stagingStack (pushStaging allow s) = stagingStack s @ [?frame]"
    using assms(1) by (simp_all add: pushStaging_fields)
  from changeAll_staging[OF p assms(4)] obtain f' where
    f': "stagingStack s1 = stagingStack s @ [f']" "st_transactions f' = ?rec"
      "documentModel s1 = commitAll env True ?rec (documentModel s)" "enabled s1"
    by (auto simp: pushStaging_fields)
  have st1: "isStaging s1" using f'(1) by (simp add: isStaging_def)
  let ?s1 = "s1\<lparr>stagingStack := butlast (stagingStack s1)\<rparr>"
  have e1: "enabled ?s1" using f'(4) by simp
  have stk: "stagingStack ?s1 = stagingStack s" using f'(1) by simp
  have last: "st_transactions (last (stagingStack s1)) = ?rec" using f'(1,2) by simp
  have pop: "popStaging env s1 =
      bindE (changeInternal env (Transactions ?rev) None True ?s1)
        (\<lambda>s2. Inr (if \<not> isStaging s2 then emit History (startHistoryTracking s2) else s2,
                    Some ?rec))"
    using st1 last by (simp add: popStaging_def Let_def)
  show ?thesis
  proof (intro conjI allI impI)
    assume "cellsPresent env"
    from changeInternal_total[OF this, of "Transactions ?rev" None True ?s1]
    show "\<exists>s2 r. popStaging env s1 = Inr (s2, r)" unfolding pop by auto
  next
    fix s2 r assume r: "popStaging env s1 = Inr (s2, r)"
    from r pop obtain s2' where
      c: "changeInternal env (Transactions ?rev) None True ?s1 = Inr s2'"
      and s2: "s2 = (if \<not> isStaging s2' then emit History (startHistoryTracking s2') else s2')"
      and r': "r = Some ?rec"
      by (auto simp: bindE_Inr_iff)
    show "r = Some ?rec" by (rule r')
    show "stagingStack s2 = stagingStack s"
      using popStaging_stack(1)[OF st1 r] f'(1) by simp
    have eff: "effective env (toArray (Transactions ?rev)) = ?rev"
      using effective_reversed[OF assms(3)] by (simp add: toArray_def recorded_def)
    have "isStaging ?s1 = isStaging s" using stk by (simp add: isStaging_def)
    with changeInternal_document[OF e1 c] eff
    have "documentModel s2' = commitAll env (isStaging s) ?rev (documentModel s1)" by simp
    moreover have "documentModel s2 = documentModel s2'"
      unfolding s2 by (simp add: startHistoryTracking_def)
    ultimately show d: "documentModel s2 = commitAll env (isStaging s) ?rev (documentModel s1)"
      by simp
    show "documentModel s2 = documentModel s"
      unfolding d f'(3) by (rule commitAll_reversed[OF assms(2)])
  qed
qed

theorem staging_round_trip_witness:
  "enabled surface0 \<and>
   (\<exists>s1. changeAll counterEnv
            [(Transactions [1, 0, 2], None), (OneTransaction 4, Some (LinearSelection (veRange 1 1)))]
            (pushStaging False surface0) = Inr s1 \<and>
      documentModel s1 = 7 \<and>
      (\<exists>s2. popStaging counterEnv s1 = Inr (s2, Some [1, 2, 4]) \<and>
         stagingStack s2 = [] \<and> documentModel s2 = documentModel surface0))"
proof -
  let ?calls = "[(Transactions [1, 0, 2], None), (OneTransaction 4, Some (LinearSelection (veRange 1 1)))]"
  have a1: "enabled surface0" by (simp add: surface0_def VeDmSurface_def)
  have a2: "\<forall>t d b b'. process counterEnv (reversed counterEnv t) b' (process counterEnv t b d) = d"
    by (simp add: counterEnv_def)
  have a3: "\<forall>t. \<not> isNoOp counterEnv t \<longrightarrow> \<not> isNoOp counterEnv (reversed counterEnv t)"
    by (simp add: counterEnv_def)
  have "\<exists>s1. changeAll counterEnv ?calls (pushStaging False surface0) = Inr s1 \<and> documentModel s1 = 7"
    by (simp add: pushStaging_def surface_defs)
  then obtain s1 where
    a4: "changeAll counterEnv ?calls (pushStaging False surface0) = Inr s1" and d1: "documentModel s1 = 7"
    by blast
  have rec: "recorded counterEnv ?calls = [1, 2, 4]"
    by (simp add: recorded_def effective_def toArray_def counterEnv_def)
  have st0: "stagingStack surface0 = []" by (simp add: surface0_def VeDmSurface_def)
  from staging_round_trip[OF a1 a2 a3 a4] cellsPresent_counterEnv rec st0
  have "\<exists>s2. popStaging counterEnv s1 = Inr (s2, Some [1, 2, 4]) \<and>
         stagingStack s2 = [] \<and> documentModel s2 = documentModel surface0"
    by (metis (no_types, lifting))
  with a1 a4 d1 show ?thesis by blast
qed


section \<open>fixupRangeForLinks\<close>

definition getLinks :: "('doc, 'tx, 'node, 'ts) env \<Rightarrow> 'doc \<Rightarrow> nat \<Rightarrow> annotationSet" where
  "getLinks env doc offset =
     filter (\<lambda>ann. annotationName env doc ann = ''link'') (getAnnotationsFromOffset env doc offset)"

text \<open>The local variables \<^verbatim>\<open>startLink\<close> and \<^verbatim>\<open>endLink\<close>: the first link at that end of the
  range that is not among the annotations of the whole range, or \<^verbatim>\<open>undefined\<close>.\<close>

definition startLinkOf :: "('doc, 'tx, 'node, 'ts) env \<Rightarrow> 'doc \<Rightarrow> range \<Rightarrow> nat option" where
  "startLinkOf env doc r =
     getIndex (diffWith (getLinks env doc (rstart r)) (getAnnotationsFromRange env doc r False)) 0"

definition endLinkOf :: "('doc, 'tx, 'node, 'ts) env \<Rightarrow> 'doc \<Rightarrow> range \<Rightarrow> nat option" where
  "endLinkOf env doc r =
     getIndex (diffWith (getLinks env doc (rend r)) (getAnnotationsFromRange env doc r False)) 0"

text \<open>The two \<^verbatim>\<open>while\<close> loops.\<close>

function walkStart :: "('doc, 'tx, 'node, 'ts) env \<Rightarrow> 'doc \<Rightarrow> nat \<Rightarrow> nat \<Rightarrow> nat" where
  "walkStart env doc link start =
     (if 0 < start \<and> containsIndex (getLinks env doc (start - 1)) link
      then walkStart env doc link (start - 1) else start)"
  by pat_completeness auto
termination
  by (relation "measure (\<lambda>(env, doc, link, start). start)") auto

function walkEnd :: "('doc, 'tx, 'node, 'ts) env \<Rightarrow> 'doc \<Rightarrow> nat \<Rightarrow> nat \<Rightarrow> nat" where
  "walkEnd env doc link e =
     (if e < getLength env doc \<and> containsIndex (getLinks env doc e) link
      then walkEnd env doc link (e + 1) else e)"
  by pat_completeness auto
termination
  by (relation "measure (\<lambda>(env, doc, link, e). getLength env doc - e)") auto

declare walkStart.simps [simp del] walkEnd.simps [simp del]

definition fixupRangeForLinks ::
  "('doc, 'tx, 'node, 'ts) env \<Rightarrow> ('doc, 'tx, 'node, 'ts) surface \<Rightarrow> range \<Rightarrow> range" where
  "fixupRangeForLinks env s r =
     (let doc = documentModel s; start = rstart r; e = rend r in
      if range_isCollapsed r then r
      else (let startLink = startLinkOf env doc r; endLink = endLinkOf env doc r in
        if startLink = None \<and> endLink = None then r
        else (let start' = (case startLink of Some l \<Rightarrow> walkStart env doc l start | None \<Rightarrow> start);
                  e' = (case endLink of Some l \<Rightarrow> walkEnd env doc l e | None \<Rightarrow> e)
              in if isBackwards r then veRange e' start' else veRange start' e')))"

lemma walkStart_spec:
  "walkStart env doc l start \<le> start \<and>
   (\<forall>k. walkStart env doc l start \<le> k \<and> k < start \<longrightarrow> containsIndex (getLinks env doc k) l) \<and>
   (walkStart env doc l start = 0 \<or>
    \<not> containsIndex (getLinks env doc (walkStart env doc l start - 1)) l)"
proof (induction env doc l start rule: walkStart.induct)
  case (1 env doc link start)
  show ?case
  proof (cases "0 < start \<and> containsIndex (getLinks env doc (start - 1)) link")
    case True
    then have w: "walkStart env doc link start = walkStart env doc link (start - 1)"
      by (subst walkStart.simps) simp
    have "k < start - 1 \<or> k = start - 1" if "k < start" for k using that by arith
    with 1[OF True] True show ?thesis unfolding w by (auto simp: le_diff_conv)
  next
    case False
    then have "walkStart env doc link start = start" by (subst walkStart.simps) auto
    with False show ?thesis by auto
  qed
qed

lemma walkEnd_spec:
  "e \<le> walkEnd env doc l e \<and>
   (\<forall>k. e \<le> k \<and> k < walkEnd env doc l e \<longrightarrow>
        k < getLength env doc \<and> containsIndex (getLinks env doc k) l) \<and>
   (getLength env doc \<le> walkEnd env doc l e \<or>
    \<not> containsIndex (getLinks env doc (walkEnd env doc l e)) l)"
proof (induction env doc l e rule: walkEnd.induct)
  case (1 env doc link e)
  show ?case
  proof (cases "e < getLength env doc \<and> containsIndex (getLinks env doc e) link")
    case True
    then have w: "walkEnd env doc link e = walkEnd env doc link (e + 1)"
      by (subst walkEnd.simps) simp
    have "k = e \<or> e + 1 \<le> k" if "e \<le> k" for k using that by arith
    with 1[OF True] True show ?thesis unfolding w by auto
  next
    case False
    then have "walkEnd env doc link e = e" by (subst walkEnd.simps) auto
    with False show ?thesis by auto
  qed
qed


lemma fixupRangeForLinks_ends:
  assumes "\<not> range_isCollapsed r"
  shows "rstart (fixupRangeForLinks env s r) =
           (case startLinkOf env (documentModel s) r of
              None \<Rightarrow> rstart r | Some l \<Rightarrow> walkStart env (documentModel s) l (rstart r))"
    and "rend (fixupRangeForLinks env s r) =
           (case endLinkOf env (documentModel s) r of
              None \<Rightarrow> rend r | Some l \<Rightarrow> walkEnd env (documentModel s) l (rend r))"
    and "isBackwards (fixupRangeForLinks env s r) = isBackwards r"
proof -
  let ?doc = "documentModel s"
  let ?start = "case startLinkOf env ?doc r of
              None \<Rightarrow> rstart r | Some l \<Rightarrow> walkStart env ?doc l (rstart r)"
  let ?e = "case endLinkOf env ?doc r of
              None \<Rightarrow> rend r | Some l \<Rightarrow> walkEnd env ?doc l (rend r)"
  have lt: "rstart r < rend r" using assms
    by (auto simp: range_isCollapsed_def rstart_def rend_def)
  have a: "?start \<le> rstart r" using walkStart_spec[of env ?doc _ "rstart r"]
    by (simp split: option.splits)
  have b: "rend r \<le> ?e" using walkEnd_spec[of "rend r" env ?doc]
    by (simp split: option.splits)
  have c: "fixupRangeForLinks env s r = (if isBackwards r then veRange ?e ?start else veRange ?start ?e)"
  proof (cases "startLinkOf env ?doc r = None \<and> endLinkOf env ?doc r = None")
    case True
    with assms show ?thesis
      by (cases r) (auto simp: fixupRangeForLinks_def Let_def veRange_def isBackwards_def rstart_def rend_def)
  next
    case False
    with assms show ?thesis by (auto simp: fixupRangeForLinks_def Let_def)
  qed
  from a b lt show "rstart (fixupRangeForLinks env s r) = ?start"
    and "rend (fixupRangeForLinks env s r) = ?e"
    and "isBackwards (fixupRangeForLinks env s r) = isBackwards r"
    unfolding c by (auto simp: veRange_def rstart_def rend_def isBackwards_def)
qed


subsection \<open>A text with a link\<close>

text \<open>
  Modelled from the spec: ve.dm.ElementLinearData is not among the sources. Here the
  linear data is a text, one slot per character, each slot holding the indices of the
  annotations of its character; outside the text there is no annotation. The annotations
  of a range are those present across the whole range (or, with \<open>all\<close>, those present
  anywhere in it). The annotation 0 is a link, the others are text styles.
\<close>

definition textAnnotationsFromOffset :: "annotationSet list \<Rightarrow> nat \<Rightarrow> annotationSet" where
  "textAnnotationsFromOffset d i = (if i < length d then d ! i else [])"

definition textAnnotationsFromRange :: "annotationSet list \<Rightarrow> range \<Rightarrow> bool \<Rightarrow> annotationSet" where
  "textAnnotationsFromRange d r all =
     (case take (rend r - rstart r) (drop (rstart r) d) of
        [] \<Rightarrow> []
      | x # xs \<Rightarrow> if all then foldl addSet x xs
                 else filter (\<lambda>a. list_all (\<lambda>y. a \<in> set y) xs) x)"

definition textEnv :: "(annotationSet list, int, nat, nat) env" where
  "textEnv =
     \<lparr>isNoOp = (\<lambda>t. True),
      reversed = (\<lambda>t. t),
      hasElementAttributeOperations = (\<lambda>t. False),
      process = (\<lambda>t staging d. d),
      translateByTransaction = (\<lambda>t sel. sel),
      getBranchNodeFromOffset = (\<lambda>d n. Obj 0),
      getNodeFromOffset = (\<lambda>d n. None),
      getOuterRange = (\<lambda>d n. veRange 0 (length d)),
      getMatrixCells = (\<lambda>d t. [t]),
      getInsertionAnnotationsFromRange = (\<lambda>d r. textAnnotationsFromOffset d (rstart r)),
      getAnnotationsFromOffset = textAnnotationsFromOffset,
      getAnnotationsFromRange = textAnnotationsFromRange,
      getLength = length,
      annotationName = (\<lambda>d a. if a = 0 then ''link'' else ''textStyle'')\<rparr>"

text \<open>Twelve characters; the link spans the offsets 5 to 9, that is [5,10).\<close>

definition linkedText :: "annotationSet list" where
  "linkedText = [[], [], [], [], [], [0], [0], [0], [0], [0], [], []]"


text \<open>
  C6 (amended). For a range that is not collapsed, each end that carries a link
  annotation not present across the whole range is walked outward one offset at a time
  while that same link covers the adjacent offset: the start moves down over offsets that
  all carry the link and stops at offset 0 or below an offset that does not carry it, the
  end moves up likewise and stops at the end of the data or at an offset that does not
  carry it; an end without such a link stays, and the direction of the range is kept.
\<close>

theorem fixupRangeForLinks_walks_outward:
  assumes "\<not> range_isCollapsed r"
  shows "(let doc = documentModel s; r' = fixupRangeForLinks env s r in
          isBackwards r' = isBackwards r \<and>
          (case startLinkOf env doc r of
             None \<Rightarrow> rstart r' = rstart r
           | Some l \<Rightarrow>
               rstart r' \<le> rstart r \<and>
               (\<forall>k. rstart r' \<le> k \<and> k < rstart r \<longrightarrow> containsIndex (getLinks env doc k) l) \<and>
               (rstart r' = 0 \<or> \<not> containsIndex (getLinks env doc (rstart r' - 1)) l)) \<and>
          (case endLinkOf env doc r of
             None \<Rightarrow> rend r' = rend r
           | Some l \<Rightarrow>
               rend r \<le> rend r' \<and>
               (\<forall>k. rend r \<le> k \<and> k < rend r' \<longrightarrow>
                    k < getLength env doc \<and> containsIndex (getLinks env doc k) l) \<and>
               (getLength env doc \<le> rend r' \<or> \<not> containsIndex (getLinks env doc (rend r')) l)))"
  unfolding Let_def fixupRangeForLinks_ends[OF assms]
  using walkStart_spec[of env "documentModel s" _ "rstart r"]
        walkEnd_spec[of "rend r" env "documentModel s"]
  by (auto split: option.splits)


lemmas text_defs =
  fixupRangeForLinks_def startLinkOf_def endLinkOf_def getLinks_def textEnv_def linkedText_def
  textAnnotationsFromOffset_def textAnnotationsFromRange_def VeDmSurface_def veRange_def
  range_isCollapsed_def rstart_def rend_def isBackwards_def diffWith_def getIndex_def
  containsIndex_def Let_def walkStart.simps walkEnd.simps

theorem fixupRangeForLinks_walks_outward_witness:
  "\<not> range_isCollapsed (veRange 7 12) \<and>
   fixupRangeForLinks textEnv (VeDmSurface linkedText) (veRange 7 12) = veRange 5 12 \<and>
   fixupRangeForLinks textEnv (VeDmSurface linkedText) (veRange 3 8) = veRange 3 10 \<and>
   fixupRangeForLinks textEnv (VeDmSurface linkedText) (veRange 12 7) = veRange 12 5"
  using fixupRangeForLinks_walks_outward[of "veRange 7 12" "VeDmSurface linkedText" textEnv]
  by (simp add: text_defs)

text \<open>
  C6 as stated fails in its example: the link over [5,10) covers the whole range [7,8),
  so it is among the annotations of the range, neither end has a link of its own, and the
  range comes back unchanged.
\<close>

theorem fixupRangeForLinks_inside_link_counterexample:
  "map (getLinks textEnv linkedText) [4, 5, 6, 7, 8, 9, 10] = [[], [0], [0], [0], [0], [0], []] \<and>
   fixupRangeForLinks textEnv (VeDmSurface linkedText) (veRange 7 8) = veRange 7 8 \<and>
   fixupRangeForLinks textEnv (VeDmSurface linkedText) (veRange 7 8) \<noteq> veRange 5 10"
  by (simp add: text_defs)


section \<open>ve.dm.Converter: openAndCloseAnnotations\<close>

text \<open>
  The calls of the two callbacks, in order. A callback receives the annotation found at
  an index of the set, which is \<^verbatim>\<open>undefined\<close> outside the set.
\<close>

datatype callback = Open "nat option" | Close "nat option"

text \<open>
  Modelled from the spec: \<^verbatim>\<open>containsComparableForSerialization\<close> of the absent
  ve.dm.AnnotationSet. Two annotations that are deep-equal for serialization are
  comparable; the comparison of annotations is the parameter \<open>cmp\<close>.
\<close>

definition containsComparableForSerialization ::
  "(nat \<Rightarrow> nat \<Rightarrow> bool) \<Rightarrow> annotationSet \<Rightarrow> nat option \<Rightarrow> bool" where
  "containsComparableForSerialization cmp a ann =
     (case ann of None \<Rightarrow> False | Some x \<Rightarrow> list_ex (cmp x) a)"

text \<open>The first loop: the index of the first open annotation that the target set does
  not hold (any more), or \<^verbatim>\<open>undefined\<close>. \<open>i\<close> is the index of the head of the list.\<close>

fun startClosingAt ::
  "(nat \<Rightarrow> nat \<Rightarrow> bool) \<Rightarrow> annotationSet \<Rightarrow> nat \<Rightarrow> annotationSet \<Rightarrow> nat option" where
  "startClosingAt cmp [] i targetSetOpen = None"
| "startClosingAt cmp (index # rest) i targetSetOpen =
     (if containsIndex targetSetOpen index \<or>
         containsComparableForSerialization cmp targetSetOpen (Some index)
      then startClosingAt cmp rest (i + 1) (removeIndex targetSetOpen index)
      else Some i)"

text \<open>The second loop, from the top of the current set down to \<open>k\<close>.\<close>

function closeLoop ::
  "int \<Rightarrow> int \<Rightarrow> annotationSet \<Rightarrow> callback list \<Rightarrow> annotationSet \<times> callback list" where
  "closeLoop i k currentSet calls =
     (if k \<le> i
      then closeLoop (i - 1) k (removeAt currentSet (nat i)) (calls @ [Close (js_index currentSet i)])
      else (currentSet, calls))"
  by pat_completeness auto
termination
  by (relation "measure (\<lambda>(i, k, currentSet, calls). nat (i - k + 1))") auto

declare closeLoop.simps [simp del]

text \<open>The third loop, over the target set.\<close>

fun openLoop ::
  "(nat \<Rightarrow> nat \<Rightarrow> bool) \<Rightarrow> annotationSet \<Rightarrow> annotationSet \<Rightarrow> annotationSet \<Rightarrow> callback list \<Rightarrow>
   annotationSet \<times> callback list" where
  "openLoop cmp [] currentSetOpen currentSet calls = (currentSet, calls)"
| "openLoop cmp (index # rest) currentSetOpen currentSet calls =
     (if containsIndex currentSetOpen index \<or>
         containsComparableForSerialization cmp currentSetOpen (Some index)
      then openLoop cmp rest (removeIndex currentSetOpen index) currentSet calls
      else openLoop cmp rest currentSetOpen (pushIndex currentSet index) (calls @ [Open (Some index)]))"

text \<open>The function returns the current set as it has modified it, and the calls made.\<close>

definition openAndCloseAnnotations ::
  "(nat \<Rightarrow> nat \<Rightarrow> bool) \<Rightarrow> annotationSet \<Rightarrow> annotationSet \<Rightarrow> annotationSet \<times> callback list" where
  "openAndCloseAnnotations cmp currentSet targetSet =
     (let (current1, calls1) =
            (case startClosingAt cmp currentSet 0 targetSet of
               Some k \<Rightarrow> closeLoop (int (length currentSet) - 1) (int k) currentSet []
             | None \<Rightarrow> (currentSet, []))
      in openLoop cmp targetSet current1 current1 calls1)"

text \<open>
  C5. With Bold opened first and Italic on top, and the target Italic then Underline
  (three different annotations, none comparable with another), the close callback is
  called on Italic then Bold, the open callback on Italic then Underline, and the current
  set ends equal to the target set, in order.
\<close>

theorem openAndCloseAnnotations_bold_italic_underline:
  assumes "distinct [bold, italic, underline]"
    and "\<not> cmp bold italic" and "\<not> cmp bold underline"
  shows "openAndCloseAnnotations cmp [bold, italic] [italic, underline] =
           ([italic, underline],
            [Close (Some italic), Close (Some bold), Open (Some italic), Open (Some underline)])"
  using assms
  by (simp add: openAndCloseAnnotations_def containsIndex_def containsComparableForSerialization_def
      closeLoop.simps js_index_def removeAt_def removeIndex_def pushIndex_def)

theorem openAndCloseAnnotations_bold_italic_underline_witness:
  "distinct [0, 1, 2 :: nat] \<and>
   openAndCloseAnnotations (=) [0, 1] [1, 2] =
     ([1, 2], [Close (Some 1), Close (Some 0), Open (Some 1), Open (Some 2)])"
  using openAndCloseAnnotations_bold_italic_underline[of 0 1 2 "(=)"]
  by simp


section \<open>Insertion annotations as objects\<close>

text \<open>
  The model of the surface above holds annotation sets by value. In the JavaScript an
  AnnotationSet is a mutable object, and what the surface and its callers hold are
  references. This section models the accessors of the insertion annotations with an
  explicit store of AnnotationSet objects: a reference is an address, \<^verbatim>\<open>clone\<close> and
  \<^verbatim>\<open>new ve.dm.AnnotationSet\<close> allocate the next free address, and a caller that mutates
  an object writes at its address.
\<close>

type_synonym ref = nat

text \<open>The two events of the accessors; the first carries the reference to the surface's
  own set.\<close>

datatype refEvent = InsertionAnnotationsChangeRef ref | ContextChangeRef

record refSurface =
  objects :: "annotationSet list"
  insertionAnnotationsRef :: ref
  enabledRef :: bool
  emittedRef :: "refEvent list"

definition alloc :: "annotationSet \<Rightarrow> refSurface \<Rightarrow> ref \<times> refSurface" where
  "alloc a s = (length (objects s), s\<lparr>objects := objects s @ [a]\<rparr>)"

definition clone :: "ref \<Rightarrow> refSurface \<Rightarrow> ref \<times> refSurface" where
  "clone r s = alloc (objects s ! r) s"

text \<open>A caller mutates the object behind a reference it holds.\<close>

definition mutate :: "ref \<Rightarrow> annotationSet \<Rightarrow> refSurface \<Rightarrow> refSurface" where
  "mutate r a s = s\<lparr>objects := (objects s)[r := a]\<rparr>"

text \<open>The set behind a reference, and the insertion annotations of the surface.\<close>

definition deref :: "refSurface \<Rightarrow> ref \<Rightarrow> annotationSet" where
  "deref s r = objects s ! r"

definition getInsertionAnnotations_ref :: "refSurface \<Rightarrow> ref \<times> refSurface" where
  "getInsertionAnnotations_ref s = clone (insertionAnnotationsRef s) s"

definition setInsertionAnnotations_ref :: "ref option \<Rightarrow> refSurface \<Rightarrow> refSurface" where
  "setInsertionAnnotations_ref annotations s =
     (if \<not> enabledRef s then s
      else (let (r, s1) = (case annotations of Some a \<Rightarrow> clone a s | None \<Rightarrow> alloc [] s);
                s2 = s1\<lparr>insertionAnnotationsRef := r\<rparr>
            in s2\<lparr>emittedRef := emittedRef s2 @
                      [InsertionAnnotationsChangeRef (insertionAnnotationsRef s2), ContextChangeRef]\<rparr>))"


text \<open>
  C10. getInsertionAnnotations returns a clone: whatever the caller writes into the
  returned set, the insertion annotations of the surface and the set returned by the next
  call are the original ones. setInsertionAnnotations stores a clone of its argument:
  whatever the caller writes into the argument afterwards, the insertion annotations of
  the (enabled) surface are the argument as it was at the call.
\<close>

theorem insertionAnnotations_isolated:
  assumes "insertionAnnotationsRef s < length (objects s)" and "a < length (objects s)"
  shows "(let (r, s1) = getInsertionAnnotations_ref s;
              s2 = mutate r v s1;
              (r', s3) = getInsertionAnnotations_ref s2
          in r \<noteq> insertionAnnotationsRef s \<and>
             deref s2 (insertionAnnotationsRef s2) = deref s (insertionAnnotationsRef s) \<and>
             deref s3 r' = deref s (insertionAnnotationsRef s)) \<and>
         (enabledRef s \<longrightarrow>
            (let s1 = setInsertionAnnotations_ref (Some a) s;
                 s2 = mutate a v s1
             in insertionAnnotationsRef s1 \<noteq> a \<and>
                deref s1 (insertionAnnotationsRef s1) = deref s a \<and>
                deref s2 (insertionAnnotationsRef s2) = deref s a))"
  using assms
  by (simp add: getInsertionAnnotations_ref_def setInsertionAnnotations_ref_def clone_def
      alloc_def mutate_def deref_def Let_def nth_append)

text \<open>A surface whose insertion annotations are the set [1, 2] at address 0, and a caller's
  set [3] at address 1.\<close>

definition refSurface0 :: refSurface where
  "refSurface0 = \<lparr>objects = [[1, 2], [3]], insertionAnnotationsRef = 0, enabledRef = True,
                  emittedRef = []\<rparr>"

theorem insertionAnnotations_isolated_witness:
  "insertionAnnotationsRef refSurface0 < length (objects refSurface0) \<and>
   1 < length (objects refSurface0) \<and> enabledRef refSurface0 \<and>
   (let (r, s1) = getInsertionAnnotations_ref refSurface0;
        s2 = mutate r [9] s1;
        (r', s3) = getInsertionAnnotations_ref s2
    in r = 2 \<and> deref s2 r = [9] \<and> deref s2 (insertionAnnotationsRef s2) = [1, 2] \<and>
       deref s3 r' = [1, 2]) \<and>
   (let s1 = setInsertionAnnotations_ref (Some 1) refSurface0;
        s2 = mutate 1 [9] s1
    in deref s2 1 = [9] \<and> deref s2 (insertionAnnotationsRef s2) = [3])"
  using insertionAnnotations_isolated[of refSurface0 1 "[9]"]
  by (simp add: refSurface0_def getInsertionAnnotations_ref_def setInsertionAnnotations_ref_def
      clone_def alloc_def mutate_def deref_def Let_def)


section \<open>ve.dm.Converter: getDataFromDomSubtree\<close>

subsection \<open>The DOM, linear data and the collaborators\<close>

text \<open>
  A text is a JavaScript string: a sequence of UTF-16 code units. \<^verbatim>\<open>\s\<close> matches the
  white space and line terminator code units of ECMAScript.
\<close>

type_synonym jstring = "nat list"

definition isSpace :: "nat \<Rightarrow> bool" where
  "isSpace c = (c \<in> {9, 10, 11, 12, 13, 32, 160, 5760, 8232, 8233, 8239, 8287, 12288, 65279}
                \<or> (8192 \<le> c \<and> c \<le> 8202))"

text \<open>
  A DOM node: an element with its attributes and child nodes, a comment, a text node, or
  a node of another type (which the \<^verbatim>\<open>switch\<close> passes over).
\<close>

datatype dom =
    ElementNode string "(string \<times> string) list" "dom list"
  | CommentNode jstring
  | TextNode jstring
  | OtherNode

definition childNodes :: "dom \<Rightarrow> dom list" where
  "childNodes n = (case n of ElementNode _ _ cs \<Rightarrow> cs | _ \<Rightarrow> [])"

text \<open>\<^verbatim>\<open>getAttribute\<close> of an element: \<^verbatim>\<open>null\<close> when the attribute is absent; a comment has
  no such method.\<close>

definition getAttribute :: "dom \<Rightarrow> string \<Rightarrow> string option" where
  "getAttribute n name = (case n of ElementNode _ attrs _ \<Rightarrow> map_of attrs name | _ \<Rightarrow> None)"

text \<open>
  An element of the linear data as an object: its type (with a leading slash for a close
  marker), its attributes, the \<^verbatim>\<open>internal\<close> bookkeeping (the four whitespace slots
  outerPre, innerPre, innerPost, outerPost, each possibly \<^verbatim>\<open>undefined\<close>, and the
  \<^verbatim>\<open>generated\<close> tag), the annotations and the original DOM elements.
\<close>

record internalData =
  whitespace :: "jstring option list option"
  generated :: "string option"

record element =
  etype :: string
  attributes :: "(string \<times> string) list"
  internal :: "internalData option"
  annotations :: "annotationSet option"
  originalDomElements :: "dom list option"

text \<open>
  An item of linear data as a value (what a collaborator returns, and what waits in the
  queue of wrapped meta items), and as it stands in the data array: there an element is a
  reference into the store of element objects, together with its type, which is never
  written after the object is created.
\<close>

datatype pitem = PChr nat | PAnnChr nat annotationSet | PElem element

datatype item = Chr nat | AnnChr nat annotationSet | Elem nat string

text \<open>The context record of one recursion level.\<close>

record ctx =
  cx_annotations :: annotationSet
  branchType :: string
  branchHasContent :: bool
  originallyExpectingContent :: bool
  expectingContent :: bool
  inWrapper :: bool
  canCloseWrapper :: bool

text \<open>
  What \<^verbatim>\<open>toDataElement\<close> returns, as createDataElements reads it: \<^verbatim>\<open>null\<close> (alienate), an
  empty array, or linear data that starts with the element itself (a single element
  counts as an array of one).
\<close>

datatype dataElements = Null | Empty | Data element "pitem list"

text \<open>
  A model class of the registry, as far as the converter uses it: whether its prototype
  is an annotation, a meta item or a node, whether it is ve.dm.AlienMetaItem or derived
  from it, its \<^verbatim>\<open>enableAboutGrouping\<close> and its \<^verbatim>\<open>toDataElement\<close>, which is given the DOM
  elements and the converter, of which it may read the current context.
\<close>

datatype classKind = AnnotationClass | MetaItemClass | NodeClass

record modelClass =
  kind :: classKind
  alienMeta :: bool
  enableAboutGrouping :: bool
  toDataElement :: "ctx \<Rightarrow> dom list \<Rightarrow> dataElements"

text \<open>
  The registry, the node factory, the annotation factory and the classes ve.dm.AlienNode
  and ve.dm.AlienMetaItem are not among the sources; their methods are parameters.
  \<open>lookup\<close> takes the name that matchElement returned, which may be \<^verbatim>\<open>null\<close>.
  \<open>createFromElement\<close> stands for the annotation built by the annotation factory, as its
  index in the store.
\<close>

record cenv =
  matchElement :: "dom \<Rightarrow> bool \<Rightarrow> string option"
  lookup :: "string option \<Rightarrow> modelClass option"
  alienNodeAboutGrouping :: bool
  alienNodeToDataElement :: "ctx \<Rightarrow> dom list \<Rightarrow> dataElements"
  alienMetaItemToDataElement :: "ctx \<Rightarrow> dom list \<Rightarrow> dataElements"
  canNodeContainContent :: "string \<Rightarrow> bool"
  isNodeContent :: "string \<Rightarrow> bool"
  canNodeHaveChildren :: "string \<Rightarrow> bool"
  doesNodeHandleOwnChildren :: "string \<Rightarrow> bool"
  doesNodeHaveSignificantWhitespace :: "string \<Rightarrow> bool"
  getChildNodeTypes :: "string \<Rightarrow> string list option"
  createFromElement :: "element \<Rightarrow> nat"

text \<open>ve.dm.AlienNode is a node class, ve.dm.AlienMetaItem a meta item class.\<close>

definition AlienNode :: "cenv \<Rightarrow> modelClass" where
  "AlienNode env = \<lparr>kind = NodeClass, alienMeta = False,
     enableAboutGrouping = alienNodeAboutGrouping env, toDataElement = alienNodeToDataElement env\<rparr>"

definition AlienMetaItem :: "cenv \<Rightarrow> modelClass" where
  "AlienMetaItem env = \<lparr>kind = MetaItemClass, alienMeta = True,
     enableAboutGrouping = False, toDataElement = alienMetaItemToDataElement env\<rparr>"

text \<open>
  The local variables of one call, and the store of element objects. \<open>wrapperElement\<close>,
  \<open>wrappingParagraph\<close> and \<open>prevElement\<close> are references (with the type of the element),
  or \<^verbatim>\<open>undefined\<close>. The queued meta items are values: a queued object is referenced by the
  queue alone until it is written to the data.
\<close>

record lstate =
  store :: "element list"
  data :: "item list"
  nextWhitespace :: jstring
  wrappedWhitespace :: jstring
  wrappedWhitespaceIndex :: nat
  wrappedMetaItems :: "pitem list"
  cx :: ctx
  wrappingParagraph :: "(nat \<times> string) option"
  prevElement :: "(nat \<times> string) option"
  wrapperElement :: "(nat \<times> string) option"

subsection \<open>Writing to the data array and to element objects\<close>

text \<open>Items written to the data array: every element becomes an object of the store.\<close>

fun place :: "pitem list \<Rightarrow> element list \<Rightarrow> item list \<times> element list" where
  "place [] h = ([], h)"
| "place (PChr c # xs) h = (let (ys, h') = place xs h in (Chr c # ys, h'))"
| "place (PAnnChr c a # xs) h = (let (ys, h') = place xs h in (AnnChr c a # ys, h'))"
| "place (PElem e # xs) h = (let (ys, h') = place xs (h @ [e]) in (Elem (length h) (etype e) # ys, h'))"

text \<open>\<^verbatim>\<open>data = data.concat( xs )\<close>, \<^verbatim>\<open>ve.batchSplice( data, i, 0, xs )\<close> and
  \<^verbatim>\<open>data.splice( i, n )\<close>.\<close>

definition concatData :: "pitem list \<Rightarrow> lstate \<Rightarrow> lstate" where
  "concatData xs st = (let (ys, h) = place xs (store st) in st\<lparr>store := h, data := data st @ ys\<rparr>)"

definition spliceData :: "nat \<Rightarrow> pitem list \<Rightarrow> lstate \<Rightarrow> lstate" where
  "spliceData i xs st =
     (let (ys, h) = place xs (store st)
      in st\<lparr>store := h, data := take i (data st) @ ys @ drop i (data st)\<rparr>)"

definition removeData :: "nat \<Rightarrow> nat \<Rightarrow> lstate \<Rightarrow> lstate" where
  "removeData i n st = st\<lparr>data := take i (data st) @ drop (i + n) (data st)\<rparr>"

definition closeElement :: "string \<Rightarrow> element" where
  "closeElement ty = \<lparr>etype = CHR ''/'' # ty, attributes = [], internal = None,
     annotations = None, originalDomElements = None\<rparr>"

definition generatedParagraph :: "string \<Rightarrow> element" where
  "generatedParagraph g = \<lparr>etype = ''paragraph'', attributes = [],
     internal = Some \<lparr>whitespace = None, generated = Some g\<rparr>,
     annotations = None, originalDomElements = None\<rparr>"

text \<open>The assignment \<^verbatim>\<open>element.internal.whitespace[ index ] = whitespace\<close> of addWhitespace,
  which creates \<^verbatim>\<open>internal\<close> and the array where they are missing.\<close>

definition setWhitespace :: "nat \<Rightarrow> jstring \<Rightarrow> element \<Rightarrow> element" where
  "setWhitespace index ws e =
     (let i = (case internal e of None \<Rightarrow> \<lparr>whitespace = None, generated = None\<rparr> | Some i \<Rightarrow> i);
          w = (case whitespace i of None \<Rightarrow> [] | Some w \<Rightarrow> w);
          w' = (w @ replicate (Suc index - length w) None)[index := Some ws]
      in e\<lparr>internal := Some (i\<lparr>whitespace := Some w'\<rparr>)\<rparr>)"

text \<open>addWhitespace on an element of the store. The whitespace may be \<^verbatim>\<open>undefined\<close> or
  empty (then nothing happens), and the element may be \<^verbatim>\<open>undefined\<close> (a TypeError).\<close>

definition addWhitespace ::
  "(nat \<times> string) option \<Rightarrow> nat \<Rightarrow> jstring option \<Rightarrow> lstate \<Rightarrow> error + lstate" where
  "addWhitespace el index ws st =
     (case ws of
        None \<Rightarrow> Inr st
      | Some w \<Rightarrow>
          if w = [] then Inr st
          else (case el of
                  None \<Rightarrow> Inl TypeError
                | Some (r, ty) \<Rightarrow>
                    Inr (st\<lparr>store := (store st)[r := setWhitespace index w (store st ! r)]\<rparr>)))"

definition processNextWhitespace :: "(nat \<times> string) option \<Rightarrow> lstate \<Rightarrow> error + lstate" where
  "processNextWhitespace el st =
     (if nextWhitespace st \<noteq> []
      then bindE (addWhitespace el 0 (Some (nextWhitespace st)) st)
             (\<lambda>s. Inr (s\<lparr>nextWhitespace := []\<rparr>))
      else Inr st)"

text \<open>ve.dm.Converter.static.getDataContentFromText.\<close>

definition getDataContentFromText :: "jstring \<Rightarrow> annotationSet \<Rightarrow> pitem list" where
  "getDataContentFromText cs anns =
     (if anns = [] then map PChr cs else map (\<lambda>c. PAnnChr c anns) cs)"

subsection \<open>The queue of wrapped meta items\<close>

datatype treatment = Restore | Fixup

text \<open>The variable \<^verbatim>\<open>prev\<close> of outputWrappedMetaItems: the wrapping paragraph, or the
  item at an index of \<^verbatim>\<open>toInsert\<close>.\<close>

datatype prevItem = PrevParagraph | PrevInserted nat

definition isOpenType :: "string \<Rightarrow> bool" where
  "isOpenType ty = (ty \<noteq> [] \<and> hd ty \<noteq> CHR ''/'')"

definition whitespaceOf :: "element \<Rightarrow> jstring option list option" where
  "whitespaceOf e = (case internal e of None \<Rightarrow> None | Some i \<Rightarrow> whitespace i)"

text \<open>\<^verbatim>\<open>addWhitespace( prev, 3, whitespace )\<close> in the fixup treatment.\<close>

definition addWhitespacePrev ::
  "prevItem \<Rightarrow> jstring option \<Rightarrow> pitem list \<Rightarrow> lstate \<Rightarrow> error + (pitem list \<times> lstate)" where
  "addWhitespacePrev prev ws toInsert st =
     (case prev of
        PrevParagraph \<Rightarrow> bindE (addWhitespace (wrappingParagraph st) 3 ws st) (\<lambda>s. Inr (toInsert, s))
      | PrevInserted k \<Rightarrow>
          (case ws of
             None \<Rightarrow> Inr (toInsert, st)
           | Some w \<Rightarrow>
               if w = [] then Inr (toInsert, st)
               else (case toInsert ! k of
                       PElem e \<Rightarrow> Inr (toInsert[k := PElem (setWhitespace 3 w e)], st)
                     | _ \<Rightarrow> Inr (toInsert, st))))"

text \<open>The loop of outputWrappedMetaItems over the queue.\<close>

fun wrappedMetaLoop ::
  "treatment \<Rightarrow> pitem list \<Rightarrow> pitem list \<Rightarrow> prevItem \<Rightarrow> lstate \<Rightarrow> error + (pitem list \<times> lstate)" where
  "wrappedMetaLoop tr [] toInsert prev st = Inr (toInsert, st)"
| "wrappedMetaLoop tr (PElem e # rest) toInsert prev st =
     (if isOpenType (etype e)
      then (case whitespaceOf e of
              None \<Rightarrow> wrappedMetaLoop tr rest (toInsert @ [PElem e]) (PrevInserted (length toInsert)) st
            | Some w \<Rightarrow>
                (case tr of
                   Restore \<Rightarrow>
                     (case js_index w 0 of
                        None \<Rightarrow> Inl TypeError
                      | Some None \<Rightarrow> Inl TypeError
                      | Some (Some t) \<Rightarrow>
                          (let ins = toInsert @ getDataContentFromText t (cx_annotations (cx st))
                           in wrappedMetaLoop tr rest (ins @ [PElem (e\<lparr>internal := None\<rparr>)])
                                (PrevInserted (length ins)) st))
                 | Fixup \<Rightarrow>
                     bindE (addWhitespacePrev prev
                              (case js_index w 0 of None \<Rightarrow> None | Some t \<Rightarrow> t) toInsert st)
                       (\<lambda>(ins, s). wrappedMetaLoop tr rest (ins @ [PElem e])
                                      (PrevInserted (length ins)) s)))
      else wrappedMetaLoop tr rest (toInsert @ [PElem e]) prev st)"
| "wrappedMetaLoop tr (x # rest) toInsert prev st =
     wrappedMetaLoop tr rest (toInsert @ [x]) prev st"

definition outputWrappedMetaItems :: "treatment \<Rightarrow> lstate \<Rightarrow> error + lstate" where
  "outputWrappedMetaItems tr st =
     bindE (wrappedMetaLoop tr (wrappedMetaItems st) [] PrevParagraph st) (\<lambda>(toInsert, s).
       Inr ((if wrappedWhitespace s \<noteq> [] \<and> tr = Restore
             then spliceData (wrappedWhitespaceIndex s) toInsert s
             else concatData toInsert s)\<lparr>wrappedMetaItems := []\<rparr>))"

subsection \<open>startWrapping and stopWrapping\<close>

definition updateCx :: "(ctx \<Rightarrow> ctx) \<Rightarrow> lstate \<Rightarrow> lstate" where
  "updateCx f st = st\<lparr>cx := f (cx st)\<rparr>"

definition startWrapping :: "lstate \<Rightarrow> error + lstate" where
  "startWrapping st =
     (let r = length (store st);
          s1 = concatData [PElem (generatedParagraph ''wrapper'')] st;
          s2 = s1\<lparr>wrappingParagraph := Some (r, ''paragraph'')\<rparr>;
          s3 = updateCx (\<lambda>c. c\<lparr>inWrapper := True, canCloseWrapper := True, expectingContent := True\<rparr>) s2
      in processNextWhitespace (wrappingParagraph s3) s3)"

text \<open>\<^verbatim>\<open>addWhitespace\<close> on the item of the queue at an index that may lie outside it. An
  annotated character is an array, which takes the property; a bare character is a
  primitive string, so that reading \<^verbatim>\<open>element.internal.whitespace\<close> raises a TypeError.\<close>

definition addWhitespaceQueued :: "int \<Rightarrow> nat \<Rightarrow> jstring \<Rightarrow> lstate \<Rightarrow> error + lstate" where
  "addWhitespaceQueued k index ws st =
     (if ws = [] then Inr st
      else (case js_index (wrappedMetaItems st) k of
              None \<Rightarrow> Inl TypeError
            | Some (PChr c) \<Rightarrow> Inl TypeError
            | Some (PAnnChr c a) \<Rightarrow> Inr st
            | Some (PElem e) \<Rightarrow>
                Inr (st\<lparr>wrappedMetaItems :=
                          (wrappedMetaItems st)[nat k := PElem (setWhitespace index ws e)]\<rparr>)))"

text \<open>The first step of stopWrapping: the wrapped whitespace is taken out of the data and
  given to the last sibling, either the last meta item or the wrapper paragraph.\<close>

definition moveWrappedWhitespace :: "lstate \<Rightarrow> error + lstate" where
  "moveWrappedWhitespace st =
     (if wrappedWhitespace st \<noteq> []
      then (let s1 = removeData (wrappedWhitespaceIndex st) (length (wrappedWhitespace st)) st
            in bindE
                 (if 0 < length (wrappedMetaItems s1)
                  then addWhitespaceQueued (int (length (wrappedMetaItems s1)) - 2) 3
                         (wrappedWhitespace s1) s1
                  else addWhitespace (wrappingParagraph s1) 3 (Some (wrappedWhitespace s1)) s1)
                 (\<lambda>s2. Inr (s2\<lparr>nextWhitespace := wrappedWhitespace s2\<rparr>)))
      else Inr st)"

definition stopWrapping :: "lstate \<Rightarrow> error + lstate" where
  "stopWrapping st =
     bindE (moveWrappedWhitespace st)
       (\<lambda>s3. bindE (outputWrappedMetaItems Fixup (concatData [PElem (closeElement ''paragraph'')] s3))
          (\<lambda>s4. Inr (updateCx (\<lambda>c. c\<lparr>inWrapper := False, canCloseWrapper := False,
                                       expectingContent := originallyExpectingContent c\<rparr>)
                        (s4\<lparr>wrappingParagraph := None\<rparr>))))"

subsection \<open>About groups, model classes, data elements\<close>

definition isElementNode :: "dom \<Rightarrow> bool" where
  "isElementNode n = (case n of ElementNode _ _ _ \<Rightarrow> True | _ \<Rightarrow> False)"

text \<open>getAboutGroup: the node and the siblings that follow it, as long as they are elements
  with the same \<^verbatim>\<open>about\<close> attribute.\<close>

definition getAboutGroup :: "dom \<Rightarrow> dom list \<Rightarrow> dom list" where
  "getAboutGroup node siblings =
     (if \<not> isElementNode node \<or> getAttribute node ''about'' = None then [node]
      else node # takeWhile (\<lambda>n. isElementNode n \<and> getAttribute n ''about'' = getAttribute node ''about'')
                    siblings)"

text \<open>
  Modelled from the spec: \<^verbatim>\<open>ve.dm.LinearData.static.getType\<close> is not among the sources.
  The type of an item is the type of its open marker, for a close marker too; a character
  has none.
\<close>

definition getType :: "item \<Rightarrow> string option" where
  "getType it = (case it of Elem r ty \<Rightarrow> Some (if isOpenType ty then ty else drop 1 ty) | _ \<Rightarrow> None)"

text \<open>isAllInstanceOf, with the test on the class as a predicate.\<close>

definition isAllInstanceOf :: "cenv \<Rightarrow> item list \<Rightarrow> (modelClass \<Rightarrow> bool) \<Rightarrow> bool" where
  "isAllInstanceOf env items isTarget =
     list_all (\<lambda>it. case getType it of
                      None \<Rightarrow> False
                    | Some ty \<Rightarrow>
                        ty \<noteq> [] \<and>
                        isTarget (case lookup env (Some ty) of Some c \<Rightarrow> c | None \<Rightarrow> AlienNode env))
       (rev items)"

definition createDataElements :: "modelClass \<Rightarrow> ctx \<Rightarrow> dom list \<Rightarrow> dataElements" where
  "createDataElements modelClass c domElements =
     (case toDataElement modelClass c domElements of
        Data e rest \<Rightarrow> Data (e\<lparr>originalDomElements := Some domElements\<rparr>) rest
      | r \<Rightarrow> r)"

definition isValidChildNodeType :: "cenv \<Rightarrow> ctx \<Rightarrow> string \<Rightarrow> bool" where
  "isValidChildNodeType env c nodeType =
     (case getChildNodeTypes env (branchType c) of None \<Rightarrow> True | Some ts \<Rightarrow> nodeType \<in> set ts)"

subsection \<open>One child node\<close>

text \<open>
  What the loop does after looking at a child: go on with the next child (skipping the
  further nodes of an about group), or first convert the subtree of the child by a
  recursive call, for which the state of the caller is kept.
\<close>

datatype continuation =
    AnnotationCont lstate "dom list"
  | NodeCont lstate "nat \<times> string" nat

datatype action = Continue nat lstate | Recurse lstate continuation

text \<open>The set-up of a call: the context record and the local variables (the data holds
  the wrapper element when there is one).\<close>

definition initState ::
  "cenv \<Rightarrow> (nat \<times> string) option \<Rightarrow> annotationSet option \<Rightarrow> ctx option \<Rightarrow> element list \<Rightarrow> lstate" where
  "initState env wrapper annotationSet prevContext h =
     (let anns = (case annotationSet of
                    Some a \<Rightarrow> a
                  | None \<Rightarrow> (case prevContext of Some p \<Rightarrow> cx_annotations p | None \<Rightarrow> []));
          bt = (case wrapper of
                  Some (r, ty) \<Rightarrow> ty
                | None \<Rightarrow> (case prevContext of Some p \<Rightarrow> branchType p | None \<Rightarrow> ''document''));
          bhc = canNodeContainContent env bt;
          oec = (bhc \<or> anns \<noteq> [])
      in \<lparr>store = h,
          data = (case wrapper of Some (r, ty) \<Rightarrow> [Elem r ty] | None \<Rightarrow> []),
          nextWhitespace = [], wrappedWhitespace = [], wrappedWhitespaceIndex = 0,
          wrappedMetaItems = [],
          cx = \<lparr>cx_annotations = anns, branchType = bt, branchHasContent = bhc,
                originallyExpectingContent = oec, expectingContent = oec,
                inWrapper = (case prevContext of Some p \<Rightarrow> inWrapper p | None \<Rightarrow> False),
                canCloseWrapper = False\<rparr>,
          wrappingParagraph = None, prevElement = None, wrapperElement = wrapper\<rparr>)"

text \<open>The choice of the model class and the creation of the data elements (the lines from
  getAboutGroup to the \<^verbatim>\<open>continue\<close>); \<open>None\<close> is the \<^verbatim>\<open>continue\<close>. A class that the registry
  does not know for the type it got back is \<^verbatim>\<open>undefined\<close>, and reading its prototype
  raises a TypeError, as does reading the first element of what AlienNode returns when it
  is \<^verbatim>\<open>null\<close> or empty.\<close>

text \<open>The DOM nodes that are alienated with a child: its about group, if ve.dm.AlienNode
  groups by \<^verbatim>\<open>about\<close>.\<close>

definition alienNodes :: "cenv \<Rightarrow> dom \<Rightarrow> dom list \<Rightarrow> dom list" where
  "alienNodes env childNode aboutGroup =
     (if enableAboutGrouping (AlienNode env) then aboutGroup else [childNode])"

definition resolveModel ::
  "cenv \<Rightarrow> ctx \<Rightarrow> dom \<Rightarrow> dom list \<Rightarrow>
   error + (modelClass \<times> dom list \<times> element \<times> pitem list) option" where
  "resolveModel env c childNode aboutGroup =
     (let modelName = matchElement env childNode (1 < length aboutGroup);
          modelClass = (case lookup env modelName of Some c \<Rightarrow> c | None \<Rightarrow> AlienNode env);
          nodes = (if kind modelClass = AnnotationClass then [childNode]
                   else if enableAboutGrouping modelClass then aboutGroup else [childNode])
      in case createDataElements modelClass c nodes of
           Null \<Rightarrow>
             (let nodes' = alienNodes env childNode aboutGroup
              in case createDataElements (AlienNode env) c nodes' of
                   Data e rest \<Rightarrow> Inr (Some (AlienNode env, nodes', e, rest))
                 | _ \<Rightarrow> Inl TypeError)
         | Data e rest \<Rightarrow>
             (case lookup env (Some (etype e)) of
                None \<Rightarrow> Inl TypeError
              | Some mc \<Rightarrow> Inr (Some (mc, nodes, e, rest)))
         | Empty \<Rightarrow> Inr None)"

definition annotate :: "annotationSet \<Rightarrow> element \<Rightarrow> element" where
  "annotate anns e = (if anns \<noteq> [] then e\<lparr>annotations := Some anns\<rparr> else e)"

text \<open>\<^verbatim>\<open>if ( childDataElements.length === 1 ) push the close marker\<close>.\<close>

definition withClose :: "element \<Rightarrow> pitem list \<Rightarrow> pitem list" where
  "withClose e rest = PElem e # (if rest = [] then [PElem (closeElement (etype e))] else rest)"

definition annotationBranch ::
  "cenv \<Rightarrow> dom list \<Rightarrow> element \<Rightarrow> lstate \<Rightarrow> error + action" where
  "annotationBranch env nodes e st =
     (let annotation = createFromElement env e in
      bindE (if \<not> inWrapper (cx st) \<and> \<not> expectingContent (cx st)
             then bindE (startWrapping st) (\<lambda>s. Inr (s\<lparr>prevElement := wrappingParagraph s\<rparr>))
             else Inr st)
        (\<lambda>s1. let childAnnotations = pushIndex (cx_annotations (cx s1)) annotation
               in Inr (Recurse (initState env None (Some childAnnotations) (Some (cx s1)) (store s1))
                         (AnnotationCont s1 nodes))))"

text \<open>After the recursive call for an annotation: \<open>items\<close> is the data it returned.\<close>

definition resumeAnnotation ::
  "cenv \<Rightarrow> lstate \<Rightarrow> dom list \<Rightarrow> item list \<Rightarrow> element list \<Rightarrow> error + lstate" where
  "resumeAnnotation env parent nodes items h =
     (let st = parent\<lparr>store := h\<rparr> in
      if items = [] \<or> isAllInstanceOf env items alienMeta
      then (case createDataElements (AlienMetaItem env) (cx st) nodes of
              Data e rest \<Rightarrow>
                (let cde = PElem (annotate (cx_annotations (cx st)) e) #
                             rest @ [PElem (closeElement (etype e))]
                 in bindE (outputWrappedMetaItems Restore st)
                      (\<lambda>s. Inr ((concatData cde s)\<lparr>wrappedWhitespace := []\<rparr>)))
            | _ \<Rightarrow> Inl TypeError)
      else bindE (outputWrappedMetaItems Restore st)
             (\<lambda>s. Inr (s\<lparr>data := data s @ items, wrappedWhitespace := []\<rparr>)))"

definition metaItemBranch ::
  "dom list \<Rightarrow> element \<Rightarrow> pitem list \<Rightarrow> lstate \<Rightarrow> error + action" where
  "metaItemBranch nodes e rest st =
     (let e1 = annotate (cx_annotations (cx st)) e;
          extra = length nodes - 1
      in if inWrapper (cx st) \<and> canCloseWrapper (cx st)
         then (if wrappedWhitespace st \<noteq> []
               then (let s1 = removeData (wrappedWhitespaceIndex st) (length (wrappedWhitespace st)) st;
                         e2 = setWhitespace 0 (wrappedWhitespace st) e1
                     in Inr (Continue extra
                          (s1\<lparr>wrappedMetaItems := wrappedMetaItems st @ withClose e2 rest,
                              nextWhitespace := wrappedWhitespace st, wrappedWhitespace := []\<rparr>)))
               else Inr (Continue extra
                      (st\<lparr>wrappedMetaItems := wrappedMetaItems st @ withClose e1 rest\<rparr>)))
         else bindE (outputWrappedMetaItems Restore st) (\<lambda>s1.
                let first = Some (length (store s1), etype e1)
                in bindE (processNextWhitespace first (concatData (withClose e1 rest) s1))
                     (\<lambda>s2. Inr (Continue extra (s2\<lparr>prevElement := first\<rparr>)))))"

text \<open>A node. First, \<^verbatim>\<open>If childIsContent isn't what we expect, adjust\<close>: start wrapping,
  stop wrapping, or alienate the child. The result is the state with the nodes, the data
  elements and \<^verbatim>\<open>childIsContent\<close> as they are afterwards.\<close>

definition adjustWrapping ::
  "cenv \<Rightarrow> dom \<Rightarrow> dom list \<Rightarrow> dom list \<Rightarrow> element \<Rightarrow> pitem list \<Rightarrow> lstate \<Rightarrow>
   error + (lstate \<times> dom list \<times> element \<times> pitem list \<times> bool)" where
  "adjustWrapping env childNode aboutGroup nodes e rest st =
     (let childIsContent = isNodeContent env (etype e) in
      if \<not> expectingContent (cx st) \<and> childIsContent
      then bindE (startWrapping st)
             (\<lambda>s. Inr (s\<lparr>prevElement := wrappingParagraph s\<rparr>, nodes, e, rest, childIsContent))
      else if expectingContent (cx st) \<and> \<not> childIsContent
      then (if inWrapper (cx st) \<and> canCloseWrapper (cx st)
            then bindE (stopWrapping st) (\<lambda>s. Inr (s, nodes, e, rest, childIsContent))
            else (let nodes' = alienNodes env childNode aboutGroup
                  in case createDataElements (AlienNode env) (cx st) nodes' of
                       Data e' rest' \<Rightarrow> Inr (st, nodes', e', rest', isNodeContent env (etype e'))
                     | _ \<Rightarrow> Inl TypeError))
      else Inr (st, nodes, e, rest, childIsContent))"

text \<open>\<^verbatim>\<open>If we're inserting content into a wrapper, any wrapped whitespace and meta items up
  until this point are here to stay\<close>.\<close>

definition keepWrapped :: "bool \<Rightarrow> lstate \<Rightarrow> error + lstate" where
  "keepWrapped isContent st =
     (if inWrapper (cx st) \<and> isContent
      then bindE (outputWrappedMetaItems Restore st)
             (\<lambda>s. Inr (s\<lparr>wrappedWhitespace := [], nextWhitespace := []\<rparr>))
      else Inr st)"

text \<open>\<^verbatim>\<open>Output child and process children if needed\<close>: the recursion writes the element and
  its close marker itself.\<close>

definition outputChild ::
  "cenv \<Rightarrow> dom list \<Rightarrow> element \<Rightarrow> pitem list \<Rightarrow> bool \<Rightarrow> lstate \<Rightarrow> error + action" where
  "outputChild env nodes e rest isContent st =
     (let e2 = (if isContent then annotate (cx_annotations (cx st)) e else e);
          extra = length nodes - 1
      in bindE (outputWrappedMetaItems Restore st) (\<lambda>s3.
           let first = (length (store s3), etype e2) in
           if rest = [] \<and> length nodes = 1 \<and> canNodeHaveChildren env (etype e2) \<and>
              \<not> doesNodeHandleOwnChildren env (etype e2)
           then Inr (Recurse
                  (initState env (Some first) (Some []) (Some (cx s3)) (store s3 @ [e2]))
                  (NodeCont s3 first extra))
           else bindE (processNextWhitespace (Some first) (concatData (withClose e2 rest) s3))
                  (\<lambda>s4. Inr (Continue extra (s4\<lparr>prevElement := Some first\<rparr>)))))"

definition nodeBranch ::
  "cenv \<Rightarrow> dom \<Rightarrow> dom list \<Rightarrow> dom list \<Rightarrow> element \<Rightarrow> pitem list \<Rightarrow> lstate \<Rightarrow> error + action" where
  "nodeBranch env childNode aboutGroup nodes e rest st =
     bindE (adjustWrapping env childNode aboutGroup nodes e rest st)
       (\<lambda>(s1, nodes1, e1, rest1, isContent).
          bindE (keepWrapped isContent s1) (outputChild env nodes1 e1 rest1 isContent))"

text \<open>After the recursive call for a node with children: \<open>items\<close> is the data it returned,
  which starts with the element and ends with its close marker.\<close>

definition resumeNode ::
  "lstate \<Rightarrow> nat \<times> string \<Rightarrow> item list \<Rightarrow> element list \<Rightarrow> error + lstate" where
  "resumeNode parent first items h =
     bindE (processNextWhitespace (Some first) (parent\<lparr>store := h, data := data parent @ items\<rparr>))
       (\<lambda>s. Inr (s\<lparr>prevElement := Some first\<rparr>))"

definition handleElement :: "cenv \<Rightarrow> dom list \<Rightarrow> nat \<Rightarrow> lstate \<Rightarrow> error + action" where
  "handleElement env children i st =
     (let childNode = children ! i in
      if (case getAttribute childNode ''data-ve-ignore'' of None \<Rightarrow> False | Some v \<Rightarrow> v \<noteq> [])
      then Inr (Continue 0 st)
      else (let aboutGroup = getAboutGroup childNode (drop (Suc i) children)
            in bindE (resolveModel env (cx st) childNode aboutGroup) (\<lambda>r.
                 case r of
                   None \<Rightarrow> Inr (Continue 0 st)
                 | Some (modelClass, nodes, e, rest) \<Rightarrow>
                     (case kind modelClass of
                        AnnotationClass \<Rightarrow> annotationBranch env nodes e st
                      | MetaItemClass \<Rightarrow> metaItemBranch nodes e rest st
                      | NodeClass \<Rightarrow> nodeBranch env childNode aboutGroup nodes e rest st))))"

text \<open>The whitespace that goes to the element before a bare text: to the previous
  sibling as outerPost, or to the parent as innerPre when the text is the first child.\<close>

definition whitespaceBefore :: "jstring \<Rightarrow> lstate \<Rightarrow> error + lstate" where
  "whitespaceBefore ws st =
     (case prevElement st of
        None \<Rightarrow> (case wrapperElement st of
                   Some w \<Rightarrow> addWhitespace (Some w) 1 (Some ws) st
                 | None \<Rightarrow> Inr st)
      | Some p \<Rightarrow> addWhitespace (Some p) 3 (Some ws) st)"

text \<open>The three groups of the match of \<^verbatim>\<open>/^(\s*)([\s\S]*?)(\s*)$/\<close>.\<close>

definition leadingSpace :: "jstring \<Rightarrow> jstring" where
  "leadingSpace t = takeWhile isSpace t"

definition trailingSpace :: "jstring \<Rightarrow> jstring" where
  "trailingSpace t = rev (takeWhile isSpace (rev t))"

definition splitText :: "jstring \<Rightarrow> jstring \<times> jstring \<times> jstring" where
  "splitText t =
     (let m1 = leadingSpace t;
          r = drop (length m1) t;
          m3 = trailingSpace r
      in (m1, take (length r - length m3) r, m3))"

text \<open>A text node where the branch does not take content by itself.\<close>

definition handleBareText :: "jstring \<Rightarrow> lstate \<Rightarrow> error + lstate" where
  "handleBareText t st =
     (let anns = cx_annotations (cx st) in
      if list_all isSpace t
      then (if inWrapper (cx st)
            then Inr (concatData (getDataContentFromText t anns)
                        (st\<lparr>wrappedWhitespace := t, wrappedWhitespaceIndex := length (data st)\<rparr>))
            else bindE (whitespaceBefore t st)
                   (\<lambda>s. outputWrappedMetaItems Restore (s\<lparr>nextWhitespace := t, wrappedWhitespace := []\<rparr>)))
      else (let (m1, m2, m3) = splitText t in
        bindE
          (if \<not> inWrapper (cx st)
           then bindE (startWrapping st) (\<lambda>s.
                  if m1 \<noteq> []
                  then bindE (whitespaceBefore m1 s)
                         (\<lambda>s1. addWhitespace (wrappingParagraph s1) 0 (Some m1) s1)
                  else Inr s)
           else bindE (outputWrappedMetaItems Restore st)
                  (\<lambda>s. Inr (concatData (getDataContentFromText m1 anns) s)))
          (\<lambda>s2. let s3 = concatData (getDataContentFromText m2 anns) s2;
                     s4 = s3\<lparr>wrappedWhitespace := m3, wrappedWhitespaceIndex := length (data s3)\<rparr>;
                     s5 = concatData (getDataContentFromText m3 anns) s4
                 in Inr (s5\<lparr>prevElement := wrappingParagraph s5\<rparr>))))"

text \<open>A text node where content is expected: the leading whitespace of a first child and
  the trailing whitespace of a last child go to the parent, unless whitespace is
  significant in it or annotations are open.\<close>

definition handleContentText :: "cenv \<Rightarrow> nat \<Rightarrow> nat \<Rightarrow> jstring \<Rightarrow> lstate \<Rightarrow> error + lstate" where
  "handleContentText env n i t st =
     (let anns = cx_annotations (cx st);
          strip = (anns = [] \<and>
                   (case wrapperElement st of
                      None \<Rightarrow> False
                    | Some (r, ty) \<Rightarrow> \<not> doesNodeHaveSignificantWhitespace env ty))
      in bindE
           (if strip \<and> i = 0 \<and> leadingSpace t \<noteq> []
            then bindE (addWhitespace (wrapperElement st) 1 (Some (leadingSpace t)) st)
                   (\<lambda>s. Inr (s, drop (length (leadingSpace t)) t))
            else Inr (st, t))
           (\<lambda>(s1, t1).
             bindE
               (if strip \<and> int i = int n - 1 \<and> trailingSpace t1 \<noteq> []
                then bindE (addWhitespace (wrapperElement s1) 2 (Some (trailingSpace t1)) s1)
                       (\<lambda>s. Inr (s, take (length t1 - length (trailingSpace t1)) t1))
                else Inr (s1, t1))
               (\<lambda>(s2, t2). Inr (concatData (getDataContentFromText t2 anns) s2))))"

definition handleText :: "cenv \<Rightarrow> nat \<Rightarrow> nat \<Rightarrow> jstring \<Rightarrow> lstate \<Rightarrow> error + lstate" where
  "handleText env n i t st =
     (if t = [] then Inr st
      else if \<not> originallyExpectingContent (cx st) then handleBareText t st
      else handleContentText env n i t st)"

text \<open>The \<^verbatim>\<open>switch\<close> on the type of the child node.\<close>

definition handleChild :: "cenv \<Rightarrow> dom list \<Rightarrow> nat \<Rightarrow> lstate \<Rightarrow> error + action" where
  "handleChild env children i st =
     (case children ! i of
        ElementNode tag attrs cs \<Rightarrow> handleElement env children i st
      | CommentNode c \<Rightarrow> handleElement env children i st
      | TextNode t \<Rightarrow> bindE (handleText env (length children) i t st) (\<lambda>s. Inr (Continue 0 s))
      | OtherNode \<Rightarrow> Inr (Continue 0 st))"

subsection \<open>The end of a call\<close>

text \<open>\<^verbatim>\<open>data[ data.length - 1 ] === wrapperElement\<close>: the last item is the wrapper object.\<close>

definition lastIsWrapper :: "lstate \<Rightarrow> bool" where
  "lastIsWrapper st =
     (case wrapperElement st of
        None \<Rightarrow> False
      | Some (r, ty) \<Rightarrow>
          data st \<noteq> [] \<and> (case last (data st) of Elem r' ty' \<Rightarrow> r' = r | _ \<Rightarrow> False))"

text \<open>A generated empty paragraph, which takes the pending whitespace, and its close.\<close>

definition pushEmptyParagraph :: "lstate \<Rightarrow> lstate" where
  "pushEmptyParagraph st =
     (let p = generatedParagraph ''empty'';
          p' = (if nextWhitespace st \<noteq> [] then setWhitespace 0 (nextWhitespace st) p else p)
      in concatData [PElem p', PElem (closeElement ''paragraph'')] (st\<lparr>nextWhitespace := []\<rparr>))"

text \<open>\<^verbatim>\<open>End auto-wrapping of bare content\<close>, with the flag that is set again for the
  test that follows.\<close>

definition endWrapping :: "lstate \<Rightarrow> error + lstate" where
  "endWrapping st =
     (if inWrapper (cx st) \<and> canCloseWrapper (cx st)
      then bindE (stopWrapping st) (\<lambda>s. Inr (updateCx (\<lambda>c. c\<lparr>inWrapper := True\<rparr>) s))
      else Inr st)"

text \<open>An element without children that could contain a paragraph gets an empty one.\<close>

definition fillEmptyBranch :: "cenv \<Rightarrow> lstate \<Rightarrow> lstate" where
  "fillEmptyBranch env st =
     (let bt = branchType (cx st)
      in if bt \<noteq> ''paragraph'' \<and> wrapperElement st \<noteq> None \<and> lastIsWrapper st \<and>
            \<not> inWrapper (cx st) \<and> \<not> canNodeContainContent env bt \<and>
            \<not> isNodeContent env bt \<and> isValidChildNodeType env (cx st) ''paragraph''
         then pushEmptyParagraph st else st)"

text \<open>\<^verbatim>\<open>Close element\<close>: the whitespace after the last child goes to the wrapper element as
  innerPost, and the close marker is written.\<close>

definition closeWrapperElement :: "lstate \<Rightarrow> error + lstate" where
  "closeWrapperElement st =
     (case wrapperElement st of
        None \<Rightarrow> Inr st
      | Some (r, ty) \<Rightarrow>
          bindE (if nextWhitespace st \<noteq> [] \<and> \<not> lastIsWrapper st
                 then bindE (addWhitespace (wrapperElement st) 2 (Some (nextWhitespace st)) st)
                        (\<lambda>s. Inr (s\<lparr>nextWhitespace := []\<rparr>))
                 else Inr st)
            (\<lambda>s. Inr (concatData [PElem (closeElement ty)] s)))"

text \<open>\<^verbatim>\<open>Don't return an empty document\<close>. \<open>given\<close> tells whether the caller passed an
  annotation set.\<close>

definition fillEmptyDocument :: "cenv \<Rightarrow> bool \<Rightarrow> lstate \<Rightarrow> lstate" where
  "fillEmptyDocument env given st =
     (if branchType (cx st) = ''document'' \<and>
         isAllInstanceOf env (data st) (\<lambda>c. kind c = MetaItemClass) \<and> \<not> given
      then pushEmptyParagraph st else st)"

text \<open>The code after the loop. The result is the data, with the store of element
  objects.\<close>

definition finishSubtree :: "cenv \<Rightarrow> bool \<Rightarrow> lstate \<Rightarrow> error + (item list \<times> element list)" where
  "finishSubtree env given st =
     bindE (endWrapping st) (\<lambda>s1.
       bindE (closeWrapperElement (fillEmptyBranch env s1)) (\<lambda>s3.
         let s4 = fillEmptyDocument env given s3 in Inr (data s4, store s4)))"

subsection \<open>The loop over the child nodes, and the function\<close>

definition resume ::
  "cenv \<Rightarrow> continuation \<Rightarrow> lstate \<Rightarrow> error + (nat \<times> lstate)" where
  "resume env k res =
     bindE (finishSubtree env True res) (\<lambda>(items, h).
       case k of
         AnnotationCont parent nodes \<Rightarrow>
           bindE (resumeAnnotation env parent nodes items h) (\<lambda>s. Inr (0, s))
       | NodeCont parent first extra \<Rightarrow>
           bindE (resumeNode parent first items h) (\<lambda>s. Inr (extra, s)))"

function childLoop :: "cenv \<Rightarrow> dom list \<Rightarrow> nat \<Rightarrow> lstate \<Rightarrow> error + lstate" where
  "childLoop env children i st =
     (if length children \<le> i then Inr st
      else (case handleChild env children i st of
              Inl e \<Rightarrow> Inl e
            | Inr (Continue extra s1) \<Rightarrow> childLoop env children (i + 1 + extra) s1
            | Inr (Recurse inner k) \<Rightarrow>
                (case childLoop env (childNodes (children ! i)) 0 inner of
                   Inl e \<Rightarrow> Inl e
                 | Inr res \<Rightarrow>
                     (case resume env k res of
                        Inl e \<Rightarrow> Inl e
                      | Inr (extra, s2) \<Rightarrow> childLoop env children (i + 1 + extra) s2))))"
  by pat_completeness auto

lemma size_childNodes: "size_list size (childNodes c) \<le> size c"
  by (cases c) (simp_all add: childNodes_def)

lemma size_drop_nth: "i < length xs \<Longrightarrow> size (xs ! i) < size_list size (drop i xs)"
  by (induction xs arbitrary: i) (auto simp: nth_Cons split: nat.splits)

lemma size_drop_le: "size_list size (drop k xs) \<le> size_list size (xs :: dom list)"
  by (induction xs arbitrary: k) (auto simp: drop_Cons split: nat.splits intro: le_SucI trans_le_add2)

lemma size_drop_more:
  "i < length xs \<Longrightarrow> size_list size (drop (Suc (i + k)) xs) < size_list size (drop i (xs :: dom list))"
proof (induction xs arbitrary: i)
  case Nil
  then show ?case by simp
next
  case (Cons x xs)
  show ?case
  proof (cases i)
    case 0
    with size_drop_le[of k xs] show ?thesis by simp
  next
    case (Suc j)
    with Cons.prems have "j < length xs" by simp
    from Cons.IH[OF this] Suc show ?thesis by simp
  qed
qed

lemma size_child_less:
  "i < length xs \<Longrightarrow> size_list size (childNodes (xs ! i)) < size_list size (drop i xs)"
  using size_drop_nth[of i xs] size_childNodes[of "xs ! i"] by simp

termination childLoop
  by (relation "measure (\<lambda>(env, children, i, st). size_list size (drop i children))")
     (simp_all add: size_drop_more size_child_less)

declare childLoop.simps [simp del]

text \<open>
  getDataFromDomSubtree. The context stack is pushed at the start of a call and popped
  at its end, so that the \<^verbatim>\<open>prevContext\<close> of a call is the context of its caller at the
  time of the call; it is passed as an argument.
\<close>

definition getDataFromDomSubtree ::
  "cenv \<Rightarrow> dom \<Rightarrow> (nat \<times> string) option \<Rightarrow> annotationSet option \<Rightarrow> ctx option \<Rightarrow> element list \<Rightarrow>
   error + (item list \<times> element list)" where
  "getDataFromDomSubtree env domElement wrapper annotationSet prevContext h =
     bindE (childLoop env (childNodes domElement) 0 (initState env wrapper annotationSet prevContext h))
       (finishSubtree env (annotationSet \<noteq> None))"

section \<open>Balance of the converted data\<close>

subsection \<open>Well-nested markers\<close>

definition isCloseType :: "string \<Rightarrow> bool" where
  "isCloseType ty = (ty \<noteq> [] \<and> hd ty = CHR ''/'')"

text \<open>The type of the marker that an item is, if it is one.\<close>

definition itemTag :: "item \<Rightarrow> string option" where
  "itemTag it = (case it of Elem r ty \<Rightarrow> Some ty | _ \<Rightarrow> None)"

definition ptag :: "pitem \<Rightarrow> string option" where
  "ptag x = (case x of PElem e \<Rightarrow> Some (etype e) | _ \<Rightarrow> None)"

text \<open>
  Reading a sequence of markers with a stack of the open types (the innermost first): an
  open marker is pushed, a close marker must close the innermost open type, a character
  is passed over. The result is the stack of the types left open, or \<open>None\<close> when a close
  marker does not match.
\<close>

fun nest :: "string list \<Rightarrow> string option list \<Rightarrow> string list option" where
  "nest s [] = Some s"
| "nest s (None # xs) = nest s xs"
| "nest s (Some ty # xs) =
     (if isCloseType ty
      then (case s of [] \<Rightarrow> None | t # s' \<Rightarrow> if ty = CHR ''/'' # t then nest s' xs else None)
      else nest (ty # s) xs)"

text \<open>Linear data is balanced when every marker is closed by a matching one and nothing
  stays open.\<close>

definition balanced :: "item list \<Rightarrow> bool" where
  "balanced items = (nest [] (map itemTag items) = Some [])"

lemma nest_append:
  "nest s (xs @ ys) = (case nest s xs of None \<Rightarrow> None | Some s' \<Rightarrow> nest s' ys)"
  by (induction s xs rule: nest.induct) (auto split: list.splits)

lemma nest_extend: "nest s xs = Some s' \<Longrightarrow> nest (s @ t) xs = Some (s' @ t)"
  by (induction s xs rule: nest.induct) (auto split: list.splits if_splits)

lemma nest_block: "nest [] b = Some [] \<Longrightarrow> nest s b = Some s"
  using nest_extend[of "[]" b "[]" s] by simp

lemma nest_insert:
  assumes "nest [] b = Some []"
  shows "nest s (xs @ b @ ys) = nest s (xs @ ys)"
  by (simp add: nest_append nest_block[OF assms] split: option.splits)

lemma nest_chars: "list_all (\<lambda>t. t = None) cs \<Longrightarrow> nest s cs = Some s"
  by (induction cs) auto

lemma nest_remove:
  assumes "list_all (\<lambda>t. t = None) cs"
  shows "nest s (xs @ cs @ ys) = nest s (xs @ ys)"
  by (simp add: nest_append nest_chars[OF assms] split: option.splits)

lemma isCloseType_close [simp]: "isCloseType (CHR ''/'' # ty)"
  by (simp add: isCloseType_def)

lemma nest_open_close: "\<not> isCloseType ty \<Longrightarrow> nest s [Some ty, Some (CHR ''/'' # ty)] = Some s"
  by simp

lemma nest_close: "nest (ty # s) [Some (CHR ''/'' # ty)] = Some s"
  by simp

lemma itemTag_place: "map itemTag (fst (place xs h)) = map ptag xs"
  by (induction xs h rule: place.induct) (auto simp: itemTag_def ptag_def split: prod.splits)

lemma ptag_content [simp]: "map ptag (getDataContentFromText t anns) = replicate (length t) None"
  by (induction t) (auto simp: getDataContentFromText_def ptag_def)

lemma length_content [simp]: "length (getDataContentFromText t anns) = length t"
  by (simp add: getDataContentFromText_def)

lemma length_place: "length (fst (place xs h)) = length xs"
  by (induction xs h rule: place.induct) (auto split: prod.splits)

lemma nest_replicate_None [simp]: "nest s (replicate n None) = Some s"
  by (induction n) auto

subsection \<open>Markers only\<close>

definition marks :: "string option list \<Rightarrow> string option list" where
  "marks xs = filter (\<lambda>t. t \<noteq> None) xs"

lemma marks_simps [simp]:
  "marks [] = []"
  "marks (None # xs) = marks xs"
  "marks (Some t # xs) = Some t # marks xs"
  "marks (xs @ ys) = marks xs @ marks ys"
  "marks (replicate n None) = []"
  by (simp_all add: marks_def)

lemma nest_marks: "nest s xs = nest s (marks xs)"
  by (induction s xs rule: nest.induct) (auto split: list.splits)

lemma nest_cong_marks: "marks xs = marks ys \<Longrightarrow> nest s xs = nest s ys"
  using nest_marks[of s xs] nest_marks[of s ys] by simp

lemma ptag_simps [simp]:
  "ptag (PChr c) = None"
  "ptag (PAnnChr c a) = None"
  "ptag (PElem e) = Some (etype e)"
  by (simp_all add: ptag_def)

lemma etype_setWhitespace [simp]: "etype (setWhitespace i ws e) = etype e"
  by (simp add: setWhitespace_def Let_def)

lemma map_ptag_update:
  "ptag y = ptag (xs ! k) \<Longrightarrow> map ptag (xs[k := y]) = map ptag xs"
  by (cases "k < length xs") (auto simp: map_update list_update_same_conv list_update_beyond not_less)

subsection \<open>The invariant of the loop\<close>

text \<open>A queued item can take whitespace, and can give back the whitespace it holds.\<close>

definition okQueued :: "pitem \<Rightarrow> bool" where
  "okQueued x =
     (case x of
        PChr c \<Rightarrow> False
      | PAnnChr c a \<Rightarrow> True
      | PElem e \<Rightarrow>
          (case whitespaceOf e of
             None \<Rightarrow> True
           | Some w \<Rightarrow> (case js_index w 0 of Some (Some t) \<Rightarrow> True | _ \<Rightarrow> False)))"

definition queueOk :: "pitem list \<Rightarrow> bool" where
  "queueOk q = (nest [] (map ptag q) = Some [] \<and> length q \<noteq> 1 \<and> list_all okQueued q)"

definition tags :: "lstate \<Rightarrow> string option list" where
  "tags st = map itemTag (data st)"

text \<open>The markers that are open at a point of the loop: the wrapping paragraph when it
  can be closed here, inside the wrapper element.\<close>

definition openStack :: "lstate \<Rightarrow> string list" where
  "openStack st =
     (if canCloseWrapper (cx st) then [''paragraph''] else []) @
     (case wrapperElement st of Some (r, ty) \<Rightarrow> [ty] | None \<Rightarrow> [])"

definition loopInv :: "lstate \<Rightarrow> bool" where
  "loopInv st =
     ((canCloseWrapper (cx st) \<longrightarrow>
         inWrapper (cx st) \<and> expectingContent (cx st) \<and> wrappingParagraph st \<noteq> None) \<and>
      (originallyExpectingContent (cx st) \<longrightarrow>
         expectingContent (cx st) \<and> \<not> canCloseWrapper (cx st)) \<and>
      queueOk (wrappedMetaItems st) \<and>
      nest [] (tags st) = Some (openStack st) \<and>
      (case wrapperElement st of Some (r, ty) \<Rightarrow> \<not> isCloseType ty | None \<Rightarrow> True))"

text \<open>The wrapped whitespace is the end of the data, as long as the wrapper can be closed.\<close>

definition wsOk :: "lstate \<Rightarrow> bool" where
  "wsOk st =
     (canCloseWrapper (cx st) \<and> wrappedWhitespace st \<noteq> [] \<longrightarrow>
        wrappedWhitespaceIndex st + length (wrappedWhitespace st) = length (data st) \<and>
        list_all (\<lambda>t. t = None) (drop (wrappedWhitespaceIndex st) (tags st)))"

text \<open>The part of the state that the invariant reads.\<close>

definition shape ::
  "lstate \<Rightarrow> item list \<times> jstring \<times> nat \<times> pitem list \<times> ctx \<times> (nat \<times> string) option \<times> (nat \<times> string) option" where
  "shape st = (data st, wrappedWhitespace st, wrappedWhitespaceIndex st, wrappedMetaItems st,
               cx st, wrappingParagraph st, wrapperElement st)"

lemma shape_fields:
  assumes "shape s = shape st"
  shows "data s = data st" "wrappedWhitespace s = wrappedWhitespace st"
    "wrappedWhitespaceIndex s = wrappedWhitespaceIndex st"
    "wrappedMetaItems s = wrappedMetaItems st" "cx s = cx st"
    "wrappingParagraph s = wrappingParagraph st" "wrapperElement s = wrapperElement st"
    "tags s = tags st" "openStack s = openStack st"
  using assms by (simp_all add: shape_def tags_def openStack_def)

lemma inv_shape: "shape s = shape st \<Longrightarrow> loopInv s = loopInv st"
  unfolding loopInv_def tags_def openStack_def shape_def by simp

lemma wsOk_shape: "shape s = shape st \<Longrightarrow> wsOk s = wsOk st"
  unfolding wsOk_def tags_def shape_def by simp

lemma shape_updates [simp]:
  "shape (st\<lparr>store := h\<rparr>) = shape st"
  "shape (st\<lparr>nextWhitespace := w\<rparr>) = shape st"
  "shape (st\<lparr>prevElement := p\<rparr>) = shape st"
  by (simp_all add: shape_def)

subsection \<open>Writing to the data\<close>

lemma length_tags [simp]: "length (tags st) = length (data st)"
  by (simp add: tags_def)

lemma concatData_fields [simp]:
  "cx (concatData xs st) = cx st"
  "wrappedWhitespace (concatData xs st) = wrappedWhitespace st"
  "wrappedWhitespaceIndex (concatData xs st) = wrappedWhitespaceIndex st"
  "wrappedMetaItems (concatData xs st) = wrappedMetaItems st"
  "wrappingParagraph (concatData xs st) = wrappingParagraph st"
  "wrapperElement (concatData xs st) = wrapperElement st"
  "nextWhitespace (concatData xs st) = nextWhitespace st"
  "prevElement (concatData xs st) = prevElement st"
  by (simp_all add: concatData_def split: prod.splits)

lemma tags_concatData [simp]: "tags (concatData xs st) = tags st @ map ptag xs"
  using itemTag_place[of xs "store st"]
  by (simp add: concatData_def tags_def case_prod_beta)

lemma length_concatData [simp]: "length (data (concatData xs st)) = length (data st) + length xs"
  using length_place[of xs "store st"]
  by (simp add: concatData_def case_prod_beta)

lemma concatData_Nil: "shape (concatData [] st) = shape st"
  by (simp add: concatData_def shape_def)

lemma spliceData_fields [simp]:
  "cx (spliceData i xs st) = cx st"
  "wrappedWhitespace (spliceData i xs st) = wrappedWhitespace st"
  "wrappedWhitespaceIndex (spliceData i xs st) = wrappedWhitespaceIndex st"
  "wrappedMetaItems (spliceData i xs st) = wrappedMetaItems st"
  "wrappingParagraph (spliceData i xs st) = wrappingParagraph st"
  "wrapperElement (spliceData i xs st) = wrapperElement st"
  "nextWhitespace (spliceData i xs st) = nextWhitespace st"
  "prevElement (spliceData i xs st) = prevElement st"
  by (simp_all add: spliceData_def split: prod.splits)

lemma tags_spliceData [simp]:
  "tags (spliceData i xs st) = take i (tags st) @ map ptag xs @ drop i (tags st)"
  using itemTag_place[of xs "store st"]
  by (simp add: spliceData_def tags_def take_map drop_map case_prod_beta)

lemma spliceData_Nil: "shape (spliceData i [] st) = shape st"
  by (simp add: spliceData_def shape_def)

lemma removeData_fields [simp]:
  "cx (removeData i n st) = cx st"
  "wrappedWhitespace (removeData i n st) = wrappedWhitespace st"
  "wrappedWhitespaceIndex (removeData i n st) = wrappedWhitespaceIndex st"
  "wrappedMetaItems (removeData i n st) = wrappedMetaItems st"
  "wrappingParagraph (removeData i n st) = wrappingParagraph st"
  "wrapperElement (removeData i n st) = wrapperElement st"
  "nextWhitespace (removeData i n st) = nextWhitespace st"
  "prevElement (removeData i n st) = prevElement st"
  "store (removeData i n st) = store st"
  by (simp_all add: removeData_def)

lemma tags_removeData [simp]:
  "tags (removeData i n st) = take i (tags st) @ drop (i + n) (tags st)"
  by (simp add: removeData_def tags_def take_map drop_map)

lemma updateCx_fields [simp]:
  "cx (updateCx f st) = f (cx st)"
  "data (updateCx f st) = data st"
  "tags (updateCx f st) = tags st"
  "wrappedWhitespace (updateCx f st) = wrappedWhitespace st"
  "wrappedWhitespaceIndex (updateCx f st) = wrappedWhitespaceIndex st"
  "wrappedMetaItems (updateCx f st) = wrappedMetaItems st"
  "wrappingParagraph (updateCx f st) = wrappingParagraph st"
  "wrapperElement (updateCx f st) = wrapperElement st"
  "nextWhitespace (updateCx f st) = nextWhitespace st"
  "prevElement (updateCx f st) = prevElement st"
  "store (updateCx f st) = store st"
  by (simp_all add: updateCx_def tags_def)

lemma tags_updates [simp]:
  "tags (st\<lparr>store := h\<rparr>) = tags st"
  "tags (st\<lparr>nextWhitespace := w\<rparr>) = tags st"
  "tags (st\<lparr>prevElement := p\<rparr>) = tags st"
  "tags (st\<lparr>wrappedWhitespace := w\<rparr>) = tags st"
  "tags (st\<lparr>wrappedWhitespaceIndex := k\<rparr>) = tags st"
  "tags (st\<lparr>wrappedMetaItems := q\<rparr>) = tags st"
  "tags (st\<lparr>wrappingParagraph := p\<rparr>) = tags st"
  "tags (st\<lparr>data := d\<rparr>) = map itemTag d"
  by (simp_all add: tags_def)

subsection \<open>Whitespace on elements\<close>

lemma addWhitespace_ok:
  "el \<noteq> None \<Longrightarrow> \<exists>s. addWhitespace el i ws st = Inr s \<and> shape s = shape st"
  by (auto simp: addWhitespace_def split: option.splits)

lemma addWhitespace_empty:
  "ws = None \<or> ws = Some [] \<Longrightarrow> addWhitespace el i ws st = Inr st"
  by (auto simp: addWhitespace_def split: option.splits)

lemma processNextWhitespace_ok:
  assumes "el \<noteq> None"
  shows "\<exists>s. processNextWhitespace el st = Inr s \<and> shape s = shape st"
proof -
  from addWhitespace_ok[OF assms] obtain s where
    "addWhitespace el 0 (Some (nextWhitespace st)) st = Inr s" "shape s = shape st" by blast
  then show ?thesis by (simp add: processNextWhitespace_def)
qed

subsection \<open>The queue of wrapped meta items\<close>

lemma addWhitespacePrev_ok:
  assumes "wrappingParagraph st \<noteq> None"
  shows "\<exists>ins s. addWhitespacePrev prev ws toInsert st = Inr (ins, s) \<and> shape s = shape st \<and>
           map ptag ins = map ptag toInsert"
proof (cases prev)
  case PrevParagraph
  from addWhitespace_ok[OF assms] obtain s where
    "addWhitespace (wrappingParagraph st) 3 ws st = Inr s" "shape s = shape st" by blast
  with PrevParagraph show ?thesis by (simp add: addWhitespacePrev_def)
next
  case (PrevInserted k)
  then show ?thesis
    by (auto simp: addWhitespacePrev_def map_ptag_update split: option.splits pitem.splits)
qed

lemma wrappedMetaLoop_ok:
  assumes "tr = Restore \<longrightarrow> list_all okQueued q" and "tr = Fixup \<longrightarrow> wrappingParagraph st \<noteq> None"
  shows "\<exists>ins s. wrappedMetaLoop tr q toInsert prev st = Inr (ins, s) \<and> shape s = shape st \<and>
           marks (map ptag ins) = marks (map ptag (toInsert @ q))"
  using assms
proof (induction q arbitrary: toInsert prev st)
  case Nil
  then show ?case by simp
next
  case (Cons x q)
  have rest: "tr = Restore \<longrightarrow> list_all okQueued q" using Cons.prems(1) by simp
  show ?case
  proof (cases x)
    case (PChr c)
    from Cons.IH[OF rest Cons.prems(2), of "toInsert @ [x]" prev] PChr show ?thesis by simp
  next
    case (PAnnChr c a)
    from Cons.IH[OF rest Cons.prems(2), of "toInsert @ [x]" prev] PAnnChr show ?thesis by simp
  next
    case (PElem e)
    show ?thesis
    proof (cases "isOpenType (etype e)")
      case False
      from Cons.IH[OF rest Cons.prems(2), of "toInsert @ [x]" prev] PElem False
      show ?thesis by simp
    next
      case True
      show ?thesis
      proof (cases "whitespaceOf e")
        case None
        from Cons.IH[OF rest Cons.prems(2), of "toInsert @ [x]" "PrevInserted (length toInsert)"]
          PElem True None
        show ?thesis by simp
      next
        case (Some w)
        show ?thesis
        proof (cases tr)
          case Restore
          with Cons.prems(1) PElem Some obtain t where t: "js_index w 0 = Some (Some t)"
            by (auto simp: okQueued_def split: option.splits)
          let ?ins = "toInsert @ getDataContentFromText t (cx_annotations (cx st))"
          from Cons.IH[OF rest Cons.prems(2),
              of "?ins @ [PElem (e\<lparr>internal := None\<rparr>)]" "PrevInserted (length ?ins)"]
            PElem True Some Restore t
          show ?thesis by (simp add: Let_def)
        next
          case Fixup
          from Cons.prems(2) Fixup have wp0: "wrappingParagraph st \<noteq> None" by simp
          from addWhitespacePrev_ok[OF wp0] obtain ins s where
            a: "addWhitespacePrev prev (case js_index w 0 of None \<Rightarrow> None | Some t \<Rightarrow> t) toInsert st
                = Inr (ins, s)" "shape s = shape st" "map ptag ins = map ptag toInsert"
            by blast
          have wp: "tr = Fixup \<longrightarrow> wrappingParagraph s \<noteq> None"
            using wp0 shape_fields(6)[OF a(2)] by simp
          from Cons.IH[OF rest wp, of "ins @ [PElem e]" "PrevInserted (length ins)"]
            PElem True Some Fixup a
          show ?thesis by simp
        qed
      qed
    qed
  qed
qed

text \<open>Flushing the queue inserts a balanced block in the data, and changes nothing else
  that the invariant reads.\<close>

lemma outputWrappedMetaItems_ok:
  assumes "nest [] (map ptag (wrappedMetaItems st)) = Some []"
    and q: "tr = Restore \<longrightarrow> list_all okQueued (wrappedMetaItems st)"
    and "tr = Fixup \<longrightarrow> wrappingParagraph st \<noteq> None"
  shows "\<exists>b s. outputWrappedMetaItems tr st = Inr s \<and>
           cx s = cx st \<and> wrappedWhitespace s = wrappedWhitespace st \<and>
           wrappedWhitespaceIndex s = wrappedWhitespaceIndex st \<and> wrappedMetaItems s = [] \<and>
           wrappingParagraph s = wrappingParagraph st \<and> wrapperElement s = wrapperElement st \<and>
           nest [] b = Some [] \<and>
           tags s = (if wrappedWhitespace st \<noteq> [] \<and> tr = Restore
                     then take (wrappedWhitespaceIndex st) (tags st) @ b @
                          drop (wrappedWhitespaceIndex st) (tags st)
                     else tags st @ b)"
proof -
  from wrappedMetaLoop_ok[OF q assms(3), where toInsert = "[]" and prev = PrevParagraph] obtain ins s where
    l: "wrappedMetaLoop tr (wrappedMetaItems st) [] PrevParagraph st = Inr (ins, s)"
       "shape s = shape st" "marks (map ptag ins) = marks (map ptag (wrappedMetaItems st))"
    by auto
  have b: "nest [] (map ptag ins) = Some []"
    using nest_cong_marks[OF l(3), of "[]"] assms(1) by simp
  note f = shape_fields[OF l(2)]
  show ?thesis
    unfolding outputWrappedMetaItems_def using l(1) b f
    by (intro exI[of _ "map ptag ins"]) simp
qed

lemma outputWrappedMetaItems_empty:
  assumes "wrappedMetaItems st = []"
  shows "\<exists>s. outputWrappedMetaItems tr st = Inr s \<and> shape s = shape st"
  using assms by (simp add: outputWrappedMetaItems_def concatData_def spliceData_def shape_def)

text \<open>What flushing the queue keeps of the invariant.\<close>

lemma outputWrappedMetaItems_inv:
  assumes "loopInv st" and "tr = Fixup \<longrightarrow> wrappingParagraph st \<noteq> None"
  shows "\<exists>s. outputWrappedMetaItems tr st = Inr s \<and> loopInv s \<and>
           cx s = cx st \<and> wrappedWhitespace s = wrappedWhitespace st \<and>
           wrappedMetaItems s = [] \<and>
           wrappingParagraph s = wrappingParagraph st \<and> wrapperElement s = wrapperElement st \<and>
           (wrappedWhitespace st = [] \<or> tr = Fixup \<longrightarrow>
              length (data st) \<le> length (data s) \<and> take (length (data st)) (tags s) = tags st)"
proof -
  from assms(1) have q: "nest [] (map ptag (wrappedMetaItems st)) = Some []"
    "tr = Restore \<longrightarrow> list_all okQueued (wrappedMetaItems st)"
    by (simp_all add: loopInv_def queueOk_def)
  from outputWrappedMetaItems_ok[OF q assms(2)] obtain b s where
    o: "outputWrappedMetaItems tr st = Inr s" "cx s = cx st"
       "wrappedWhitespace s = wrappedWhitespace st" "wrappedMetaItems s = []"
       "wrappingParagraph s = wrappingParagraph st" "wrapperElement s = wrapperElement st"
       "nest [] b = Some []"
       "tags s = (if wrappedWhitespace st \<noteq> [] \<and> tr = Restore
                     then take (wrappedWhitespaceIndex st) (tags st) @ b @
                          drop (wrappedWhitespaceIndex st) (tags st)
                     else tags st @ b)"
    by blast
  have n: "nest [] (tags s) = nest [] (tags st)"
  proof (cases "wrappedWhitespace st \<noteq> [] \<and> tr = Restore")
    case True
    with o(8) nest_insert[OF o(7), of "[]" "take (wrappedWhitespaceIndex st) (tags st)"
        "drop (wrappedWhitespaceIndex st) (tags st)"]
    show ?thesis by simp
  next
    case False
    with o(8) nest_insert[OF o(7), of "[]" "tags st" "[]"] show ?thesis by simp
  qed
  have os: "openStack s = openStack st" using o(2,6) by (simp add: openStack_def)
  have i: "loopInv s" using assms(1) o(2,4,5,6) n os by (simp add: loopInv_def queueOk_def)
  have l: "wrappedWhitespace st = [] \<or> tr = Fixup \<longrightarrow>
              length (data st) \<le> length (data s) \<and> take (length (data st)) (tags s) = tags st"
  proof
    assume "wrappedWhitespace st = [] \<or> tr = Fixup"
    then have t: "tags s = tags st @ b" using o(8) by auto
    then have "length (tags st) \<le> length (tags s)" by simp
    then have "length (data st) \<le> length (data s)" by (simp add: tags_def)
    moreover have "take (length (data st)) (tags s) = tags st" using t by (simp add: tags_def)
    ultimately show "length (data st) \<le> length (data s) \<and> take (length (data st)) (tags s) = tags st"
      by simp
  qed
  from o(1,2,3,4,5,6) i l show ?thesis by blast
qed

subsection \<open>startWrapping and stopWrapping\<close>

lemma paragraph_open [simp]: "\<not> isCloseType ''paragraph''"
  by (simp add: isCloseType_def)

lemma startWrapping_ok:
  assumes "loopInv st" and "\<not> canCloseWrapper (cx st)" and "\<not> originallyExpectingContent (cx st)"
  shows "\<exists>s. startWrapping st = Inr s \<and> loopInv s \<and>
           cx s = (cx st)\<lparr>inWrapper := True, canCloseWrapper := True, expectingContent := True\<rparr> \<and>
           wrappingParagraph s \<noteq> None \<and> wrapperElement s = wrapperElement st \<and>
           wrappedWhitespace s = wrappedWhitespace st \<and>
           wrappedMetaItems s = wrappedMetaItems st \<and>
           tags s = tags st @ [Some ''paragraph'']"
proof -
  let ?s3 = "updateCx (\<lambda>c. c\<lparr>inWrapper := True, canCloseWrapper := True, expectingContent := True\<rparr>)
               ((concatData [PElem (generatedParagraph ''wrapper'')] st)
                  \<lparr>wrappingParagraph := Some (length (store st), ''paragraph'')\<rparr>)"
  have wp: "wrappingParagraph ?s3 \<noteq> None" by simp
  from processNextWhitespace_ok[OF wp] obtain s where
    p: "processNextWhitespace (wrappingParagraph ?s3) ?s3 = Inr s" "shape s = shape ?s3" by blast
  note f = shape_fields[OF p(2)]
  have sw: "startWrapping st = Inr s" using p(1) by (simp add: startWrapping_def Let_def)
  have t: "tags s = tags st @ [Some ''paragraph'']"
    using f(8) by (simp add: generatedParagraph_def)
  have c: "cx s = (cx st)\<lparr>inWrapper := True, canCloseWrapper := True, expectingContent := True\<rparr>"
    using f(5) by simp
  have os: "openStack s = ''paragraph'' # openStack st"
    using assms(2) c f(7) by (simp add: openStack_def)
  have n: "nest [] (tags s) = Some (openStack s)"
    using assms(1) t os by (simp add: loopInv_def nest_append)
  have i: "loopInv s" using assms(1,3) n c f(4,6,7) by (simp add: loopInv_def)
  from sw i c t f show ?thesis by simp
qed

lemma addWhitespaceQueued_ok:
  assumes "queueOk (wrappedMetaItems st)" and "wrappedMetaItems st \<noteq> []"
  shows "\<exists>s. addWhitespaceQueued (int (length (wrappedMetaItems st)) - 2) i ws st = Inr s \<and>
           cx s = cx st \<and> data s = data st \<and> wrappedWhitespace s = wrappedWhitespace st \<and>
           wrappedWhitespaceIndex s = wrappedWhitespaceIndex st \<and>
           wrappingParagraph s = wrappingParagraph st \<and> wrapperElement s = wrapperElement st \<and>
           nest [] (map ptag (wrappedMetaItems s)) = Some []"
proof -
  let ?q = "wrappedMetaItems st"
  from assms have len: "2 \<le> length ?q" by (cases ?q) (auto simp: queueOk_def Suc_le_eq)
  define k where "k = length ?q - 2"
  have k: "int (length ?q) - 2 = int k" "k < length ?q"
    using len by (simp_all add: k_def)
  have ji: "js_index ?q (int k) = Some (?q ! k)" using k(2) by (simp add: js_index_def)
  have ok: "okQueued (?q ! k)" using assms(1) k(2) by (simp add: queueOk_def list_all_length)
  have n: "nest [] (map ptag ?q) = Some []" using assms(1) by (simp add: queueOk_def)
  show ?thesis
  proof (cases "?q ! k")
    case (PChr c)
    with ok show ?thesis by (simp add: okQueued_def)
  next
    case (PAnnChr c a)
    with ji k(1) n show ?thesis by (simp add: addWhitespaceQueued_def)
  next
    case (PElem e)
    with ji k(1) n show ?thesis by (simp add: addWhitespaceQueued_def map_ptag_update)
  qed
qed

lemma moveWrappedWhitespace_ok:
  assumes "loopInv st" and "wsOk st" and "canCloseWrapper (cx st)"
  shows "\<exists>s. moveWrappedWhitespace st = Inr s \<and> cx s = cx st \<and>
           wrappingParagraph s = wrappingParagraph st \<and> wrapperElement s = wrapperElement st \<and>
           nest [] (map ptag (wrappedMetaItems s)) = Some [] \<and>
           nest [] (tags s) = Some (openStack st)"
proof (cases "wrappedWhitespace st = []")
  case True
  with assms(1) show ?thesis by (simp add: moveWrappedWhitespace_def loopInv_def queueOk_def)
next
  case False
  let ?i = "wrappedWhitespaceIndex st"
  let ?s1 = "removeData ?i (length (wrappedWhitespace st)) st"
  from assms(2,3) False have w: "?i + length (wrappedWhitespace st) = length (data st)"
    "list_all (\<lambda>t. t = None) (drop ?i (tags st))" by (simp_all add: wsOk_def)
  have t1: "tags ?s1 = take ?i (tags st)" using w(1) by simp
  have "nest [] (take ?i (tags st) @ drop ?i (tags st)) = nest [] (take ?i (tags st) @ [])"
    using nest_remove[OF w(2), of "[]" "take ?i (tags st)" "[]"] by simp
  then have n1: "nest [] (tags ?s1) = Some (openStack st)"
    using assms(1) t1 by (simp add: loopInv_def)
  have wp: "wrappingParagraph ?s1 \<noteq> None" using assms(1,3) by (simp add: loopInv_def)
  have q: "queueOk (wrappedMetaItems ?s1)" using assms(1) by (simp add: loopInv_def)
  show ?thesis
  proof (cases "wrappedMetaItems st = []")
    case True
    from addWhitespace_ok[OF wp] obtain s where
      a: "addWhitespace (wrappingParagraph ?s1) 3 (Some (wrappedWhitespace ?s1)) ?s1 = Inr s"
         "shape s = shape ?s1" by blast
    note f = shape_fields[OF a(2)]
    from a(1) False True f n1 q show ?thesis
      by (simp add: moveWrappedWhitespace_def Let_def queueOk_def)
  next
    case nonempty: False
    then have ne: "wrappedMetaItems ?s1 \<noteq> []" by simp
    from addWhitespaceQueued_ok[OF q ne, of 3 "wrappedWhitespace ?s1"] obtain s where
      a: "addWhitespaceQueued (int (length (wrappedMetaItems ?s1)) - 2) 3 (wrappedWhitespace ?s1) ?s1
          = Inr s" "cx s = cx ?s1" "data s = data ?s1"
         "wrappingParagraph s = wrappingParagraph ?s1" "wrapperElement s = wrapperElement ?s1"
         "nest [] (map ptag (wrappedMetaItems s)) = Some []" by blast
    have ts: "tags s = tags ?s1" using a(3) by (simp add: tags_def)
    from a False nonempty n1 ts show ?thesis
      by (simp add: moveWrappedWhitespace_def Let_def)
  qed
qed

lemma stopWrapping_ok:
  assumes "loopInv st" and "wsOk st" and "canCloseWrapper (cx st)"
  shows "\<exists>s. stopWrapping st = Inr s \<and> loopInv s \<and>
           cx s = (cx st)\<lparr>inWrapper := False, canCloseWrapper := False,
                            expectingContent := originallyExpectingContent (cx st)\<rparr> \<and>
           wrapperElement s = wrapperElement st \<and> wrappedMetaItems s = []"
proof -
  from moveWrappedWhitespace_ok[OF assms] obtain s3 where
    m: "moveWrappedWhitespace st = Inr s3" "cx s3 = cx st"
       "wrappingParagraph s3 = wrappingParagraph st" "wrapperElement s3 = wrapperElement st"
       "nest [] (map ptag (wrappedMetaItems s3)) = Some []"
       "nest [] (tags s3) = Some (openStack st)" by blast
  let ?c = "concatData [PElem (closeElement ''paragraph'')] s3"
  have wp: "Fixup = Fixup \<longrightarrow> wrappingParagraph ?c \<noteq> None"
    using assms(1,3) m(3) by (simp add: loopInv_def)
  have q: "nest [] (map ptag (wrappedMetaItems ?c)) = Some []" using m(5) by simp
  have r: "Fixup = Restore \<longrightarrow> list_all okQueued (wrappedMetaItems ?c)" by simp
  from outputWrappedMetaItems_ok[OF q r wp] obtain b s4 where
    o: "outputWrappedMetaItems Fixup ?c = Inr s4" "cx s4 = cx ?c" "wrappedMetaItems s4 = []"
       "wrapperElement s4 = wrapperElement ?c" "nest [] b = Some []"
       "tags s4 = tags ?c @ b" by auto
  let ?s = "updateCx (\<lambda>c. c\<lparr>inWrapper := False, canCloseWrapper := False,
                                 expectingContent := originallyExpectingContent c\<rparr>)
              (s4\<lparr>wrappingParagraph := None\<rparr>)"
  have sw: "stopWrapping st = Inr ?s" using m(1) o(1) by (simp add: stopWrapping_def)
  have os: "openStack st = ''paragraph'' # openStack ?s"
    using assms(3) o(4) m(4) by (simp add: openStack_def)
  have "nest [] (tags ?s) = nest [] (tags s3 @ [Some (CHR ''/'' # ''paragraph'')] @ b)"
    using o(6) by (simp add: closeElement_def)
  also have "\<dots> = Some (openStack ?s)"
    using m(6) os nest_block[OF o(5)] by (simp add: nest_append)
  finally have n: "nest [] (tags ?s) = Some (openStack ?s)" .
  have i: "loopInv ?s" using assms(1) n o(2,3,4) m(2,4) by (simp add: loopInv_def queueOk_def)
  from sw i o(2,3,4) m(2,4) show ?thesis by simp
qed

subsection \<open>What the model classes have to return\<close>

text \<open>
  The data elements that \<^verbatim>\<open>toDataElement\<close> returns for a child are written to the data as
  they are, with a close marker added when there is only the element. They are balanced
  when the element is an open marker and the items after it close it.
\<close>

definition blockOk :: "element \<Rightarrow> pitem list \<Rightarrow> bool" where
  "blockOk e rest = (\<not> isCloseType (etype e) \<and> nest [] (map ptag (withClose e rest)) = Some [])"

text \<open>The data elements of a meta item may wait in the queue: the element holds no
  whitespace yet, and the items after it could take some.\<close>

definition queueable :: "element \<Rightarrow> pitem list \<Rightarrow> bool" where
  "queueable e rest = (whitespaceOf e = None \<and> list_all okQueued rest)"

definition resultOk :: "cenv \<Rightarrow> dataElements \<Rightarrow> bool" where
  "resultOk env r =
     (case r of
        Data e rest \<Rightarrow>
          blockOk e rest \<and>
          (case lookup env (Some (etype e)) of
             None \<Rightarrow> False
           | Some mc \<Rightarrow> kind mc = MetaItemClass \<longrightarrow> queueable e rest)
      | _ \<Rightarrow> True)"

text \<open>
  The registry is well behaved when every class it knows returns balanced data elements
  of a type it knows, ve.dm.AlienNode always returns such data elements, and
  ve.dm.AlienMetaItem always returns an element, followed by balanced data if any.
\<close>

definition wellBehaved :: "cenv \<Rightarrow> bool" where
  "wellBehaved env =
     ((\<forall>name mc c nodes. lookup env name = Some mc \<longrightarrow> resultOk env (toDataElement mc c nodes)) \<and>
      (\<forall>c nodes. \<exists>e rest. alienNodeToDataElement env c nodes = Data e rest \<and>
                            resultOk env (Data e rest)) \<and>
      (\<forall>c nodes. \<exists>e rest. alienMetaItemToDataElement env c nodes = Data e rest \<and>
                            \<not> isCloseType (etype e) \<and> nest [] (map ptag rest) = Some []))"

lemma wellBehaved_lookup:
  "wellBehaved env \<Longrightarrow> lookup env name = Some mc \<Longrightarrow> resultOk env (toDataElement mc c nodes)"
  unfolding wellBehaved_def by (elim conjE allE impE) assumption+

lemma wellBehaved_alienNode:
  "wellBehaved env \<Longrightarrow>
     \<exists>e rest. alienNodeToDataElement env c nodes = Data e rest \<and> resultOk env (Data e rest)"
  unfolding wellBehaved_def by (elim conjE allE)

lemma wellBehaved_alienMetaItem:
  "wellBehaved env \<Longrightarrow>
     \<exists>e rest. alienMetaItemToDataElement env c nodes = Data e rest \<and>
               \<not> isCloseType (etype e) \<and> nest [] (map ptag rest) = Some []"
  unfolding wellBehaved_def by (elim conjE allE)

lemma withClose_tags:
  "map ptag (withClose e rest) =
     Some (etype e) # (if rest = [] then [Some (CHR ''/'' # etype e)] else map ptag rest)"
  by (simp add: withClose_def closeElement_def)

lemma withClose_cong:
  "etype e' = etype e \<Longrightarrow> map ptag (withClose e' rest) = map ptag (withClose e rest)"
  by (simp add: withClose_tags)

lemma length_withClose: "2 \<le> length (withClose e rest)"
  by (cases rest) (simp_all add: withClose_def)

lemma blockOk_etype: "etype e' = etype e \<Longrightarrow> blockOk e' rest = blockOk e rest"
  by (simp add: blockOk_def withClose_tags)

lemma etype_annotate [simp]: "etype (annotate anns e) = etype e"
  by (simp add: annotate_def)

lemma whitespaceOf_annotate [simp]: "whitespaceOf (annotate anns e) = whitespaceOf e"
  by (simp add: annotate_def whitespaceOf_def)

lemma whitespaceOf_closeElement [simp]: "whitespaceOf (closeElement ty) = None"
  by (simp add: closeElement_def whitespaceOf_def)

lemma whitespaceOf_setWhitespace0:
  "whitespaceOf e = None \<Longrightarrow> whitespaceOf (setWhitespace 0 ws e) = Some [Some ws]"
  by (auto simp: whitespaceOf_def setWhitespace_def Let_def split: option.splits)

lemma okQueued_PElem_None: "whitespaceOf e = None \<Longrightarrow> okQueued (PElem e)"
  by (simp add: okQueued_def)

lemma okQueued_PElem_set: "whitespaceOf e = Some [Some ws] \<Longrightarrow> okQueued (PElem e)"
  by (simp add: okQueued_def js_index_def)

lemma okQueued_withClose:
  "okQueued (PElem e') \<Longrightarrow> list_all okQueued rest \<Longrightarrow> list_all okQueued (withClose e' rest)"
  by (simp add: withClose_def okQueued_PElem_None)

subsection \<open>The invariant under the updates of the state\<close>

lemma inv_updates [simp]:
  "loopInv (st\<lparr>store := h\<rparr>) = loopInv st"
  "loopInv (st\<lparr>nextWhitespace := w\<rparr>) = loopInv st"
  "loopInv (st\<lparr>prevElement := p\<rparr>) = loopInv st"
  "loopInv (st\<lparr>wrappedWhitespace := w\<rparr>) = loopInv st"
  "loopInv (st\<lparr>wrappedWhitespaceIndex := k\<rparr>) = loopInv st"
  by (simp_all add: loopInv_def tags_def openStack_def)

lemma wsOk_updates [simp]:
  "wsOk (st\<lparr>store := h\<rparr>) = wsOk st"
  "wsOk (st\<lparr>nextWhitespace := w\<rparr>) = wsOk st"
  "wsOk (st\<lparr>prevElement := p\<rparr>) = wsOk st"
  "wsOk (st\<lparr>wrappedMetaItems := q\<rparr>) = wsOk st"
  "wsOk (st\<lparr>wrappedWhitespace := []\<rparr>)"
  by (simp_all add: wsOk_def tags_def)

lemma wsOk_weak: "canCloseWrapper (cx st) \<longrightarrow> wrappedWhitespace st = [] \<Longrightarrow> wsOk st"
  by (auto simp: wsOk_def)

lemma openStack_concatData [simp]: "openStack (concatData xs st) = openStack st"
  by (simp add: openStack_def)

lemma inv_concatData:
  "loopInv st \<Longrightarrow> nest [] (map ptag xs) = Some [] \<Longrightarrow> loopInv (concatData xs st)"
  by (simp add: loopInv_def nest_append nest_block)

lemma inv_chars: "loopInv st \<Longrightarrow> loopInv (concatData (getDataContentFromText t anns) st)"
  by (simp add: inv_concatData)

lemma inv_enqueue:
  assumes "loopInv st" and "nest [] (map ptag b) = Some []" and "2 \<le> length b"
    and "list_all okQueued b"
  shows "loopInv (st\<lparr>wrappedMetaItems := wrappedMetaItems st @ b\<rparr>)"
  using assms by (simp add: loopInv_def queueOk_def tags_def openStack_def nest_append)

lemma removeWhitespace_inv:
  assumes "loopInv st" and "wsOk st" and "canCloseWrapper (cx st)" and "wrappedWhitespace st \<noteq> []"
  shows "loopInv (removeData (wrappedWhitespaceIndex st) (length (wrappedWhitespace st)) st)"
proof -
  let ?i = "wrappedWhitespaceIndex st"
  let ?s1 = "removeData ?i (length (wrappedWhitespace st)) st"
  from assms(2,3,4) have w: "?i + length (wrappedWhitespace st) = length (data st)"
    "list_all (\<lambda>t. t = None) (drop ?i (tags st))" by (simp_all add: wsOk_def)
  have t1: "tags ?s1 = take ?i (tags st)" using w(1) by simp
  have "nest [] (take ?i (tags st) @ drop ?i (tags st)) = nest [] (take ?i (tags st) @ [])"
    using nest_remove[OF w(2), of "[]" "take ?i (tags st)" "[]"] by simp
  then have n1: "nest [] (tags ?s1) = nest [] (tags st)" using t1 by simp
  have os: "openStack ?s1 = openStack st" by (simp add: openStack_def)
  show ?thesis using assms(1) n1 os by (simp add: loopInv_def)
qed

lemma initState_ok:
  assumes "case wrapper of Some (r, ty) \<Rightarrow> \<not> isCloseType ty | None \<Rightarrow> True"
  shows "loopInv (initState env wrapper a p h) \<and> wsOk (initState env wrapper a p h)"
proof (cases wrapper)
  case None
  then show ?thesis
    by (simp add: initState_def Let_def loopInv_def wsOk_def queueOk_def openStack_def tags_def)
next
  case (Some w)
  obtain r ty where w: "w = (r, ty)" by (cases w)
  with Some assms have "\<not> isCloseType ty" by simp
  with Some w show ?thesis
    by (simp add: initState_def Let_def loopInv_def wsOk_def queueOk_def openStack_def tags_def
        itemTag_def)
qed

subsection \<open>The choice of the model class\<close>

lemma createDataElements_eq:
  "createDataElements mc c nodes =
     (case toDataElement mc c nodes of
        Data e rest \<Rightarrow> Data (e\<lparr>originalDomElements := Some nodes\<rparr>) rest
      | Null \<Rightarrow> Null | Empty \<Rightarrow> Empty)"
  by (simp add: createDataElements_def split: dataElements.splits)

lemma blockOk_original [simp]: "blockOk (e\<lparr>originalDomElements := d\<rparr>) rest = blockOk e rest"
  by (rule blockOk_etype) simp

lemma queueable_original [simp]: "queueable (e\<lparr>originalDomElements := d\<rparr>) rest = queueable e rest"
  by (simp add: queueable_def whitespaceOf_def)

lemma createDataElements_alien:
  assumes "wellBehaved env"
  shows "\<exists>e rest mc. createDataElements (AlienNode env) c nodes = Data e rest \<and> blockOk e rest \<and>
           originalDomElements e = Some nodes \<and> lookup env (Some (etype e)) = Some mc \<and>
           (kind mc = MetaItemClass \<longrightarrow> queueable e rest)"
proof -
  from wellBehaved_alienNode[OF assms] obtain e rest where
    a: "alienNodeToDataElement env c nodes = Data e rest" "resultOk env (Data e rest)"
    by blast
  from a(2) obtain mc where
    "blockOk e rest" "lookup env (Some (etype e)) = Some mc"
    "kind mc = MetaItemClass \<longrightarrow> queueable e rest"
    by (auto simp: resultOk_def split: option.splits)
  with a(1) show ?thesis by (simp add: createDataElements_eq AlienNode_def)
qed

lemma resolveModel_ok:
  assumes "wellBehaved env"
  shows "\<exists>r. resolveModel env c childNode aboutGroup = Inr r \<and>
           (case r of
              None \<Rightarrow> True
            | Some (mc, nodes, e, rest) \<Rightarrow>
                blockOk e rest \<and> (kind mc = MetaItemClass \<longrightarrow> queueable e rest))"
proof -
  define modelName where "modelName = matchElement env childNode (1 < length aboutGroup)"
  define modelClass where
    "modelClass = (case lookup env modelName of Some c \<Rightarrow> c | None \<Rightarrow> AlienNode env)"
  define nodes where
    "nodes = (if kind modelClass = AnnotationClass then [childNode]
              else if enableAboutGrouping modelClass then aboutGroup else [childNode])"
  define nodes' where "nodes' = alienNodes env childNode aboutGroup"
  have r: "resolveModel env c childNode aboutGroup =
     (case createDataElements modelClass c nodes of
           Null \<Rightarrow>
             (case createDataElements (AlienNode env) c nodes' of
                   Data e rest \<Rightarrow> Inr (Some (AlienNode env, nodes', e, rest))
                 | _ \<Rightarrow> Inl TypeError)
         | Data e rest \<Rightarrow>
             (case lookup env (Some (etype e)) of
                None \<Rightarrow> Inl TypeError
              | Some mc \<Rightarrow> Inr (Some (mc, nodes, e, rest)))
         | Empty \<Rightarrow> Inr None)"
    by (simp only: resolveModel_def Let_def modelName_def modelClass_def nodes_def nodes'_def)
  have ok: "resultOk env (toDataElement modelClass c nodes)"
  proof (cases "lookup env modelName")
    case None
    from wellBehaved_alienNode[OF assms] obtain e rest where
      "alienNodeToDataElement env c nodes = Data e rest" "resultOk env (Data e rest)"
      by blast
    with None show ?thesis by (simp add: modelClass_def AlienNode_def)
  next
    case (Some cls)
    with wellBehaved_lookup[OF assms, of modelName cls] show ?thesis
      by (simp add: modelClass_def)
  qed
  show ?thesis
  proof (cases "toDataElement modelClass c nodes")
    case Null
    from createDataElements_alien[OF assms, of c nodes'] obtain e rest where
      "createDataElements (AlienNode env) c nodes' = Data e rest" "blockOk e rest" by blast
    with Null show ?thesis by (simp add: r createDataElements_eq[of modelClass] AlienNode_def)
  next
    case Empty
    then show ?thesis by (simp add: r createDataElements_eq)
  next
    case (Data e rest)
    with ok obtain mc where
      "blockOk e rest" "lookup env (Some (etype e)) = Some mc"
      "kind mc = MetaItemClass \<longrightarrow> queueable e rest"
      by (auto simp: resultOk_def split: option.splits)
    with Data show ?thesis by (simp add: r createDataElements_eq)
  qed
qed

subsection \<open>The branches of the loop\<close>

text \<open>What holds after a child has been looked at: the invariant for the state the loop
  goes on with, or for the state of the recursive call and the state kept for its end.\<close>

definition actionOk :: "action \<Rightarrow> bool" where
  "actionOk a =
     (case a of
        Continue extra s \<Rightarrow> loopInv s \<and> wsOk s
      | Recurse inner k \<Rightarrow>
          loopInv inner \<and> wsOk inner \<and>
          (case k of
             AnnotationCont parent nodes \<Rightarrow> loopInv parent
           | NodeCont parent first extra \<Rightarrow>
               loopInv parent \<and> (canCloseWrapper (cx parent) \<longrightarrow> wrappedWhitespace parent = [])))"

lemma metaItemBranch_ok:
  assumes "loopInv st" and "wsOk st" and "blockOk e rest" and "queueable e rest"
  shows "\<exists>a. metaItemBranch nodes e rest st = Inr a \<and> actionOk a"
proof -
  let ?e1 = "annotate (cx_annotations (cx st)) e"
  have "map ptag (withClose ?e1 rest) = map ptag (withClose e rest)"
    by (simp add: withClose_tags)
  then have b1: "nest [] (map ptag (withClose ?e1 rest)) = Some []"
    using assms(3) by (simp add: blockOk_def)
  show ?thesis
  proof (cases "inWrapper (cx st) \<and> canCloseWrapper (cx st)")
    case True
    show ?thesis
    proof (cases "wrappedWhitespace st = []")
      case True
      have q: "list_all okQueued (withClose ?e1 rest)"
        using assms(4) by (simp add: okQueued_withClose okQueued_PElem_None queueable_def)
      from inv_enqueue[OF assms(1) b1 length_withClose q] assms(2) \<open>inWrapper (cx st) \<and> canCloseWrapper (cx st)\<close> True
      show ?thesis by (simp add: metaItemBranch_def actionOk_def)
    next
      case False
      let ?s1 = "removeData (wrappedWhitespaceIndex st) (length (wrappedWhitespace st)) st"
      let ?e2 = "setWhitespace 0 (wrappedWhitespace st) ?e1"
      have i1: "loopInv ?s1" using removeWhitespace_inv[OF assms(1,2) _ False] True by simp
      have "map ptag (withClose ?e2 rest) = map ptag (withClose ?e1 rest)"
        by (simp add: withClose_tags)
      then have b2: "nest [] (map ptag (withClose ?e2 rest)) = Some []"
        using b1 by simp
      have "whitespaceOf ?e2 = Some [Some (wrappedWhitespace st)]"
        using assms(4) by (simp add: whitespaceOf_setWhitespace0 queueable_def)
      then have q: "list_all okQueued (withClose ?e2 rest)"
        using assms(4) by (simp add: okQueued_withClose okQueued_PElem_set queueable_def)
      from inv_enqueue[OF i1 b2 length_withClose q] True False
      show ?thesis by (simp add: metaItemBranch_def actionOk_def Let_def)
    qed
  next
    case False
    with assms(1) have nc: "\<not> canCloseWrapper (cx st)" by (auto simp: loopInv_def)
    from outputWrappedMetaItems_inv[OF assms(1), of Restore] obtain s1 where
      o: "outputWrappedMetaItems Restore st = Inr s1" "loopInv s1" "cx s1 = cx st" by auto
    let ?first = "Some (length (store s1), etype ?e1)"
    let ?c = "concatData (withClose ?e1 rest) s1"
    have ic: "loopInv ?c" using inv_concatData[OF o(2) b1] .
    from processNextWhitespace_ok[of ?first ?c] obtain s2 where
      p: "processNextWhitespace ?first ?c = Inr s2" "shape s2 = shape ?c" by auto
    have i2: "loopInv s2" using inv_shape[OF p(2)] ic by simp
    have "cx s2 = cx st" using shape_fields(5)[OF p(2)] o(3) by simp
    then have w2: "wsOk s2" using nc by (simp add: wsOk_def)
    from nc o(1) p(1) i2 w2 show ?thesis
      by (simp add: metaItemBranch_def actionOk_def Let_def)
  qed
qed

lemma annotationBranch_ok:
  assumes "loopInv st"
  shows "\<exists>a. annotationBranch env nodes e st = Inr a \<and> actionOk a"
proof -
  have "\<exists>s1. (if \<not> inWrapper (cx st) \<and> \<not> expectingContent (cx st)
             then bindE (startWrapping st) (\<lambda>s. Inr (s\<lparr>prevElement := wrappingParagraph s\<rparr>))
             else Inr st) = Inr s1 \<and> loopInv s1"
  proof (cases "\<not> inWrapper (cx st) \<and> \<not> expectingContent (cx st)")
    case True
    with assms have "\<not> canCloseWrapper (cx st)" "\<not> originallyExpectingContent (cx st)"
      by (auto simp: loopInv_def)
    from startWrapping_ok[OF assms this] obtain s where
      "startWrapping st = Inr s" "loopInv s" by blast
    with True show ?thesis by simp
  next
    case False
    with assms show ?thesis by auto
  qed
  then obtain s1 where s: "(if \<not> inWrapper (cx st) \<and> \<not> expectingContent (cx st)
             then bindE (startWrapping st) (\<lambda>s. Inr (s\<lparr>prevElement := wrappingParagraph s\<rparr>))
             else Inr st) = Inr s1" "loopInv s1" by blast
  have "case None :: (nat \<times> string) option of Some (r, ty) \<Rightarrow> \<not> isCloseType ty | None \<Rightarrow> True"
    by simp
  note initState_ok[OF this]
  with s show ?thesis by (simp add: annotationBranch_def Let_def actionOk_def)
qed

definition adjustedOk :: "lstate \<times> dom list \<times> element \<times> pitem list \<times> bool \<Rightarrow> bool" where
  "adjustedOk r =
     (case r of (s1, nodes1, e1, rest1, isContent) \<Rightarrow>
        loopInv s1 \<and> blockOk e1 rest1 \<and> (canCloseWrapper (cx s1) \<longrightarrow> isContent))"

lemma adjustWrapping_ok:
  assumes "wellBehaved env" and "loopInv st" and "wsOk st" and "blockOk e rest"
  shows "\<exists>r. adjustWrapping env childNode aboutGroup nodes e rest st = Inr r \<and> adjustedOk r"
proof -
  let ?cic = "isNodeContent env (etype e)"
  consider (start) "\<not> expectingContent (cx st)" "?cic"
    | (stop) "expectingContent (cx st)" "\<not> ?cic" "inWrapper (cx st)" "canCloseWrapper (cx st)"
    | (alien) "expectingContent (cx st)" "\<not> ?cic" "\<not> (inWrapper (cx st) \<and> canCloseWrapper (cx st))"
    | (keep) "expectingContent (cx st) = ?cic"
    by blast
  then show ?thesis
  proof cases
    case start
    with assms(2) have "\<not> canCloseWrapper (cx st)" "\<not> originallyExpectingContent (cx st)"
      by (auto simp: loopInv_def)
    from startWrapping_ok[OF assms(2) this] obtain s where
      s: "startWrapping st = Inr s" "loopInv s" by blast
    have "adjustWrapping env childNode aboutGroup nodes e rest st =
            Inr (s\<lparr>prevElement := wrappingParagraph s\<rparr>, nodes, e, rest, True)"
      using start s(1) by (simp add: adjustWrapping_def)
    with s(2) assms(4) show ?thesis by (simp add: adjustedOk_def)
  next
    case stop
    from stopWrapping_ok[OF assms(2,3) stop(4)] obtain s where
      s: "stopWrapping st = Inr s" "loopInv s"
         "cx s = (cx st)\<lparr>inWrapper := False, canCloseWrapper := False,
                            expectingContent := originallyExpectingContent (cx st)\<rparr>" by blast
    from s(3) have nc: "\<not> canCloseWrapper (cx s)" by simp
    have "adjustWrapping env childNode aboutGroup nodes e rest st = Inr (s, nodes, e, rest, False)"
      using stop s(1) by (simp add: adjustWrapping_def)
    with s(2) nc assms(4) show ?thesis by (simp add: adjustedOk_def)
  next
    case alien
    with assms(2) have nc: "\<not> canCloseWrapper (cx st)" by (auto simp: loopInv_def)
    let ?nodes = "alienNodes env childNode aboutGroup"
    from createDataElements_alien[OF assms(1), of "cx st" ?nodes] obtain e' rest' where
      c: "createDataElements (AlienNode env) (cx st) ?nodes = Data e' rest'" "blockOk e' rest'"
      by blast
    have "adjustWrapping env childNode aboutGroup nodes e rest st =
            Inr (st, ?nodes, e', rest', isNodeContent env (etype e'))"
      using alien(1,2) nc c(1) by (simp add: adjustWrapping_def Let_def)
    with assms(2) nc c(2) show ?thesis by (simp add: adjustedOk_def)
  next
    case keep
    with assms(2) have k: "canCloseWrapper (cx st) \<longrightarrow> ?cic" by (auto simp: loopInv_def)
    have "adjustWrapping env childNode aboutGroup nodes e rest st = Inr (st, nodes, e, rest, ?cic)"
      using keep by (simp add: adjustWrapping_def)
    with assms(2,4) k show ?thesis by (simp add: adjustedOk_def)
  qed
qed

lemma keepWrapped_ok:
  assumes "loopInv st" and "canCloseWrapper (cx st) \<longrightarrow> isContent"
  shows "\<exists>s. keepWrapped isContent st = Inr s \<and> loopInv s \<and> cx s = cx st \<and>
           (canCloseWrapper (cx s) \<longrightarrow> wrappedWhitespace s = [])"
proof (cases "inWrapper (cx st) \<and> isContent")
  case True
  from outputWrappedMetaItems_inv[OF assms(1), of Restore] obtain s where
    o: "outputWrappedMetaItems Restore st = Inr s" "loopInv s" "cx s = cx st" by auto
  with True show ?thesis by (simp add: keepWrapped_def)
next
  case False
  with assms have "\<not> canCloseWrapper (cx st)" by (auto simp: loopInv_def)
  with False assms(1) show ?thesis by (auto simp: keepWrapped_def)
qed

lemma outputChild_ok:
  assumes "loopInv st" and "canCloseWrapper (cx st) \<longrightarrow> wrappedWhitespace st = []"
    and "blockOk e rest"
  shows "\<exists>a. outputChild env nodes e rest isContent st = Inr a \<and> actionOk a"
proof -
  let ?e2 = "if isContent then annotate (cx_annotations (cx st)) e else e"
  have et: "etype ?e2 = etype e" by simp
  from assms(3) have nc: "\<not> isCloseType (etype ?e2)" by (simp add: blockOk_def)
  from assms(3) withClose_cong[OF et, of rest]
  have b: "nest [] (map ptag (withClose ?e2 rest)) = Some []" by (simp add: blockOk_def)
  from outputWrappedMetaItems_inv[OF assms(1), of Restore] obtain s3 where
    o: "outputWrappedMetaItems Restore st = Inr s3" "loopInv s3" "cx s3 = cx st"
       "wrappedWhitespace s3 = wrappedWhitespace st" by auto
  have w3: "canCloseWrapper (cx s3) \<longrightarrow> wrappedWhitespace s3 = []" using assms(2) o(3,4) by simp
  let ?first = "(length (store s3), etype ?e2)"
  show ?thesis
  proof (cases "rest = [] \<and> length nodes = 1 \<and> canNodeHaveChildren env (etype ?e2) \<and>
                \<not> doesNodeHandleOwnChildren env (etype ?e2)")
    case True
    have "case Some ?first of Some (r, ty) \<Rightarrow> \<not> isCloseType ty | None \<Rightarrow> True"
      using nc by simp
    note i = initState_ok[OF this, of env "Some []" "Some (cx s3)" "store s3 @ [?e2]"]
    have "outputChild env nodes e rest isContent st =
            Inr (Recurse (initState env (Some ?first) (Some []) (Some (cx s3)) (store s3 @ [?e2]))
                   (NodeCont s3 ?first (length nodes - 1)))"
      using True o(1) unfolding outputChild_def Let_def by (simp del: etype_annotate)
    with i o(2) w3 show ?thesis by (simp add: actionOk_def del: etype_annotate)
  next
    case False
    let ?c = "concatData (withClose ?e2 rest) s3"
    have ic: "loopInv ?c" using inv_concatData[OF o(2) b] .
    from processNextWhitespace_ok[of "Some ?first" ?c] obtain s4 where
      p: "processNextWhitespace (Some ?first) ?c = Inr s4" "shape s4 = shape ?c" by auto
    have i4: "loopInv s4" using inv_shape[OF p(2)] ic by simp
    have "cx s4 = cx s3" "wrappedWhitespace s4 = wrappedWhitespace s3"
      using shape_fields(2,5)[OF p(2)] by simp_all
    with w3 have w4: "wsOk s4" by (simp add: wsOk_weak)
    have "outputChild env nodes e rest isContent st =
            Inr (Continue (length nodes - 1) (s4\<lparr>prevElement := Some ?first\<rparr>))"
      using False o(1) p(1) unfolding outputChild_def Let_def by (simp del: etype_annotate)
    with i4 w4 show ?thesis by (simp add: actionOk_def)
  qed
qed

lemma nodeBranch_ok:
  assumes "wellBehaved env" and "loopInv st" and "wsOk st" and "blockOk e rest"
  shows "\<exists>a. nodeBranch env childNode aboutGroup nodes e rest st = Inr a \<and> actionOk a"
proof -
  from adjustWrapping_ok[OF assms] obtain r where
    a: "adjustWrapping env childNode aboutGroup nodes e rest st = Inr r" "adjustedOk r" by blast
  obtain s1 nodes1 e1 rest1 isContent where r: "r = (s1, nodes1, e1, rest1, isContent)"
    by (cases r)
  from a(2) r have ok: "loopInv s1" "blockOk e1 rest1" "canCloseWrapper (cx s1) \<longrightarrow> isContent"
    by (simp_all add: adjustedOk_def)
  from keepWrapped_ok[OF ok(1,3)] obtain s2 where
    k: "keepWrapped isContent s1 = Inr s2" "loopInv s2"
       "canCloseWrapper (cx s2) \<longrightarrow> wrappedWhitespace s2 = []" by blast
  from outputChild_ok[OF k(2,3) ok(2)] obtain act where
    "outputChild env nodes1 e1 rest1 isContent s2 = Inr act" "actionOk act" by blast
  with a(1) r k(1) show ?thesis by (simp add: nodeBranch_def)
qed

lemma handleElement_ok:
  assumes "wellBehaved env" and "loopInv st" and "wsOk st"
  shows "\<exists>a. handleElement env children i st = Inr a \<and> actionOk a"
proof (cases "case getAttribute (children ! i) ''data-ve-ignore'' of None \<Rightarrow> False | Some v \<Rightarrow> v \<noteq> []")
  case True
  with assms(2,3) show ?thesis by (simp add: handleElement_def Let_def actionOk_def)
next
  case False
  let ?g = "getAboutGroup (children ! i) (drop (Suc i) children)"
  from resolveModel_ok[OF assms(1), of "cx st" "children ! i" ?g] obtain r where
    r: "resolveModel env (cx st) (children ! i) ?g = Inr r"
       "case r of None \<Rightarrow> True
        | Some (mc, nodes, e, rest) \<Rightarrow>
            blockOk e rest \<and> (kind mc = MetaItemClass \<longrightarrow> queueable e rest)" by blast
  show ?thesis
  proof (cases r)
    case None
    with False r(1) assms(2,3) show ?thesis by (simp add: handleElement_def Let_def actionOk_def)
  next
    case (Some t)
    obtain mc nodes e rest where t: "t = (mc, nodes, e, rest)" by (cases t)
    from r(2) Some t have b: "blockOk e rest" "kind mc = MetaItemClass \<longrightarrow> queueable e rest"
      by simp_all
    have "\<exists>a. (case kind mc of
                  AnnotationClass \<Rightarrow> annotationBranch env nodes e st
                | MetaItemClass \<Rightarrow> metaItemBranch nodes e rest st
                | NodeClass \<Rightarrow> nodeBranch env (children ! i) ?g nodes e rest st) = Inr a \<and>
               actionOk a"
    proof (cases "kind mc")
      case AnnotationClass
      with annotationBranch_ok[OF assms(2)] show ?thesis by simp
    next
      case MetaItemClass
      with metaItemBranch_ok[OF assms(2,3) b(1)] b(2) show ?thesis by simp
    next
      case NodeClass
      with nodeBranch_ok[OF assms b(1)] show ?thesis by simp
    qed
    with False r(1) Some t show ?thesis by (simp add: handleElement_def Let_def)
  qed
qed

subsection \<open>Text nodes\<close>

lemma whitespaceBefore_ok: "\<exists>s. whitespaceBefore ws st = Inr s \<and> shape s = shape st"
proof (cases "prevElement st")
  case None
  show ?thesis
  proof (cases "wrapperElement st")
    case N: None
    with None show ?thesis by (simp add: whitespaceBefore_def)
  next
    case (Some w)
    from addWhitespace_ok[of "Some w" 1 "Some ws" st] None Some show ?thesis
      by (simp add: whitespaceBefore_def)
  qed
next
  case (Some p)
  from addWhitespace_ok[of "Some p" 3 "Some ws" st] Some show ?thesis
    by (simp add: whitespaceBefore_def)
qed

lemma wsOk_wrapped:
  "wsOk (concatData (getDataContentFromText t anns)
           (st\<lparr>wrappedWhitespace := t, wrappedWhitespaceIndex := length (data st)\<rparr>))"
  by (simp add: wsOk_def tags_def[of "st\<lparr>wrappedWhitespace := t, wrappedWhitespaceIndex := length (data st)\<rparr>"]
      list_all_length)

lemma inv_wrapped:
  "loopInv st \<Longrightarrow>
   loopInv (concatData (getDataContentFromText t anns)
              (st\<lparr>wrappedWhitespace := t, wrappedWhitespaceIndex := length (data st)\<rparr>))"
  by (simp add: inv_chars)

text \<open>The end of the handling of a text with actual text in it.\<close>

lemma bareText_tail:
  assumes "loopInv s2"
  shows "let s3 = concatData (getDataContentFromText m2 anns) s2;
             s4 = s3\<lparr>wrappedWhitespace := m3, wrappedWhitespaceIndex := length (data s3)\<rparr>;
             s5 = concatData (getDataContentFromText m3 anns) s4
         in loopInv (s5\<lparr>prevElement := wrappingParagraph s5\<rparr>) \<and>
            wsOk (s5\<lparr>prevElement := wrappingParagraph s5\<rparr>)"
  using inv_wrapped[OF inv_chars[OF assms, of m2 anns], of m3 anns]
    wsOk_wrapped[of m3 anns "concatData (getDataContentFromText m2 anns) s2"]
  by (simp add: Let_def)

lemma handleBareText_ok:
  assumes "loopInv st" and "wsOk st" and "\<not> originallyExpectingContent (cx st)"
  shows "\<exists>s. handleBareText t st = Inr s \<and> loopInv s \<and> wsOk s"
proof (cases "list_all isSpace t")
  case True
  show ?thesis
  proof (cases "inWrapper (cx st)")
    case inw: True
    with True inv_wrapped[OF assms(1), of t "cx_annotations (cx st)"]
      wsOk_wrapped[of t "cx_annotations (cx st)" st]
    show ?thesis by (simp add: handleBareText_def Let_def)
  next
    case False
    from whitespaceBefore_ok[of t st] obtain s where
      w: "whitespaceBefore t st = Inr s" "shape s = shape st" by blast
    let ?s = "s\<lparr>nextWhitespace := t, wrappedWhitespace := []\<rparr>"
    have "loopInv ?s" using inv_shape[OF w(2)] assms(1) by simp
    from outputWrappedMetaItems_inv[OF this, of Restore] obtain s' where
      o: "outputWrappedMetaItems Restore ?s = Inr s'" "loopInv s'"
         "wrappedWhitespace s' = wrappedWhitespace ?s" by auto
    from o(3) have "wsOk s'" by (simp add: wsOk_weak)
    with True False w(1) o(1,2) show ?thesis by (simp add: handleBareText_def Let_def)
  qed
next
  case False
  obtain m1 m2 m3 where m: "splitText t = (m1, m2, m3)" by (cases "splitText t") auto
  let ?anns = "cx_annotations (cx st)"
  have "\<exists>s2. (if \<not> inWrapper (cx st)
           then bindE (startWrapping st) (\<lambda>s.
                  if m1 \<noteq> []
                  then bindE (whitespaceBefore m1 s)
                         (\<lambda>s1. addWhitespace (wrappingParagraph s1) 0 (Some m1) s1)
                  else Inr s)
           else bindE (outputWrappedMetaItems Restore st)
                  (\<lambda>s. Inr (concatData (getDataContentFromText m1 ?anns) s))) = Inr s2 \<and>
          loopInv s2"
  proof (cases "inWrapper (cx st)")
    case True
    from outputWrappedMetaItems_inv[OF assms(1), of Restore] obtain s where
      o: "outputWrappedMetaItems Restore st = Inr s" "loopInv s" by auto
    with True inv_chars[OF o(2), of m1 ?anns] show ?thesis by simp
  next
    case nw: False
    with assms(1) have nc: "\<not> canCloseWrapper (cx st)" by (auto simp: loopInv_def)
    from startWrapping_ok[OF assms(1) nc assms(3)] obtain s where
      s: "startWrapping st = Inr s" "loopInv s" "wrappingParagraph s \<noteq> None" by blast
    show ?thesis
    proof (cases "m1 = []")
      case True
      with nw s show ?thesis by simp
    next
      case False
      from whitespaceBefore_ok[of m1 s] obtain s1 where
        w: "whitespaceBefore m1 s = Inr s1" "shape s1 = shape s" by blast
      have wp: "wrappingParagraph s1 \<noteq> None" using shape_fields(6)[OF w(2)] s(3) by simp
      from addWhitespace_ok[OF wp, of 0 "Some m1" s1] obtain s2 where
        a: "addWhitespace (wrappingParagraph s1) 0 (Some m1) s1 = Inr s2" "shape s2 = shape s1"
        by blast
      have "loopInv s2" using inv_shape[OF a(2)] inv_shape[OF w(2)] s(2) by simp
      with nw False s(1) w(1) a(1) show ?thesis by simp
    qed
  qed
  then obtain s2 where s2: "(if \<not> inWrapper (cx st)
           then bindE (startWrapping st) (\<lambda>s.
                  if m1 \<noteq> []
                  then bindE (whitespaceBefore m1 s)
                         (\<lambda>s1. addWhitespace (wrappingParagraph s1) 0 (Some m1) s1)
                  else Inr s)
           else bindE (outputWrappedMetaItems Restore st)
                  (\<lambda>s. Inr (concatData (getDataContentFromText m1 ?anns) s))) = Inr s2"
     "loopInv s2" by blast
  from False m s2(1) bareText_tail[OF s2(2), of m2 ?anns m3] show ?thesis
    by (simp add: handleBareText_def Let_def)
qed

lemma handleContentText_ok:
  assumes "loopInv st" and "originallyExpectingContent (cx st)"
  shows "\<exists>s. handleContentText env n i t st = Inr s \<and> loopInv s \<and> wsOk s"
proof -
  let ?anns = "cx_annotations (cx st)"
  define strip where "strip = (?anns = [] \<and>
                   (case wrapperElement st of
                      None \<Rightarrow> False
                    | Some (r, ty) \<Rightarrow> \<not> doesNodeHaveSignificantWhitespace env ty))"
  have we: "strip \<Longrightarrow> wrapperElement st \<noteq> None"
    by (cases "wrapperElement st") (simp_all add: strip_def)
  have "\<exists>s1 t1. (if strip \<and> i = 0 \<and> leadingSpace t \<noteq> []
            then bindE (addWhitespace (wrapperElement st) 1 (Some (leadingSpace t)) st)
                   (\<lambda>s. Inr (s, drop (length (leadingSpace t)) t))
            else Inr (st, t)) = Inr (s1, t1) \<and> shape s1 = shape st"
  proof (cases "strip \<and> i = 0 \<and> leadingSpace t \<noteq> []")
    case True
    from addWhitespace_ok[OF we, of 1 "Some (leadingSpace t)" st] True obtain s where
      "addWhitespace (wrapperElement st) 1 (Some (leadingSpace t)) st = Inr s" "shape s = shape st"
      by blast
    with True show ?thesis by simp
  next
    case False
    then show ?thesis by auto
  qed
  then obtain s1 t1 where a: "(if strip \<and> i = 0 \<and> leadingSpace t \<noteq> []
            then bindE (addWhitespace (wrapperElement st) 1 (Some (leadingSpace t)) st)
                   (\<lambda>s. Inr (s, drop (length (leadingSpace t)) t))
            else Inr (st, t)) = Inr (s1, t1)" "shape s1 = shape st" by blast
  have we1: "strip \<Longrightarrow> wrapperElement s1 \<noteq> None" using we shape_fields(7)[OF a(2)] by simp
  have "\<exists>s2 t2. (if strip \<and> int i = int n - 1 \<and> trailingSpace t1 \<noteq> []
                then bindE (addWhitespace (wrapperElement s1) 2 (Some (trailingSpace t1)) s1)
                       (\<lambda>s. Inr (s, take (length t1 - length (trailingSpace t1)) t1))
                else Inr (s1, t1)) = Inr (s2, t2) \<and> shape s2 = shape s1"
  proof (cases "strip \<and> int i = int n - 1 \<and> trailingSpace t1 \<noteq> []")
    case True
    from addWhitespace_ok[OF we1, of 2 "Some (trailingSpace t1)" s1] True obtain s where
      "addWhitespace (wrapperElement s1) 2 (Some (trailingSpace t1)) s1 = Inr s" "shape s = shape s1"
      by blast
    with True show ?thesis by simp
  next
    case False
    then show ?thesis by auto
  qed
  then obtain s2 t2 where b: "(if strip \<and> int i = int n - 1 \<and> trailingSpace t1 \<noteq> []
                then bindE (addWhitespace (wrapperElement s1) 2 (Some (trailingSpace t1)) s1)
                       (\<lambda>s. Inr (s, take (length t1 - length (trailingSpace t1)) t1))
                else Inr (s1, t1)) = Inr (s2, t2)" "shape s2 = shape s1" by blast
  let ?s = "concatData (getDataContentFromText t2 ?anns) s2"
  have i2: "loopInv s2" using inv_shape[OF b(2)] inv_shape[OF a(2)] assms(1) by simp
  have c2: "cx s2 = cx st" using shape_fields(5)[OF b(2)] shape_fields(5)[OF a(2)] by simp
  have i: "loopInv ?s" using inv_chars[OF i2] .
  have "\<not> canCloseWrapper (cx ?s)" using assms c2 by (simp add: loopInv_def)
  then have w: "wsOk ?s" by (simp add: wsOk_weak)
  have "handleContentText env n i t st = Inr ?s"
    unfolding handleContentText_def Let_def strip_def[symmetric] using a(1) b(1) by simp
  with i w show ?thesis by simp
qed

lemma handleText_ok:
  assumes "loopInv st" and "wsOk st"
  shows "\<exists>s. handleText env n i t st = Inr s \<and> loopInv s \<and> wsOk s"
proof (cases "t = []")
  case True
  with assms show ?thesis by (simp add: handleText_def)
next
  case False
  show ?thesis
  proof (cases "originallyExpectingContent (cx st)")
    case True
    with False handleContentText_ok[OF assms(1) True, of env n i t] show ?thesis
      by (simp add: handleText_def)
  next
    case nc: False
    with False handleBareText_ok[OF assms nc, of t] show ?thesis
      by (simp add: handleText_def)
  qed
qed

lemma handleChild_ok:
  assumes "wellBehaved env" and "loopInv st" and "wsOk st"
  shows "\<exists>a. handleChild env children i st = Inr a \<and> actionOk a"
proof (cases "children ! i")
  case (ElementNode tag attrs cs)
  with handleElement_ok[OF assms, of children i] show ?thesis by (simp add: handleChild_def)
next
  case (CommentNode c)
  with handleElement_ok[OF assms, of children i] show ?thesis by (simp add: handleChild_def)
next
  case (TextNode t)
  from handleText_ok[OF assms(2,3), of env "length children" i t] obtain s where
    "handleText env (length children) i t st = Inr s" "loopInv s" "wsOk s" by blast
  with TextNode show ?thesis by (simp add: handleChild_def actionOk_def)
next
  case OtherNode
  with assms(2,3) show ?thesis by (simp add: handleChild_def actionOk_def)
qed

subsection \<open>The end of a call\<close>

definition wrapperStack :: "lstate \<Rightarrow> string list" where
  "wrapperStack st = (case wrapperElement st of Some (r, ty) \<Rightarrow> [ty] | None \<Rightarrow> [])"

lemma openStack_closed: "\<not> canCloseWrapper (cx st) \<Longrightarrow> openStack st = wrapperStack st"
  by (simp add: openStack_def wrapperStack_def)

lemma endWrapping_ok:
  assumes "loopInv st" and "wsOk st"
  shows "\<exists>s. endWrapping st = Inr s \<and> nest [] (tags s) = Some (wrapperStack s)"
proof (cases "inWrapper (cx st) \<and> canCloseWrapper (cx st)")
  case True
  then have "canCloseWrapper (cx st)" by simp
  from stopWrapping_ok[OF assms this] obtain s where
    s: "stopWrapping st = Inr s" "loopInv s"
       "cx s = (cx st)\<lparr>inWrapper := False, canCloseWrapper := False,
                            expectingContent := originallyExpectingContent (cx st)\<rparr>" by blast
  from s(3) have "\<not> canCloseWrapper (cx s)" by simp
  from openStack_closed[OF this] s(2) have "nest [] (tags s) = Some (wrapperStack s)"
    by (simp add: loopInv_def)
  then have "nest [] (tags (updateCx (\<lambda>c. c\<lparr>inWrapper := True\<rparr>) s)) =
             Some (wrapperStack (updateCx (\<lambda>c. c\<lparr>inWrapper := True\<rparr>) s))"
    by (simp add: wrapperStack_def)
  with True s(1) show ?thesis by (simp add: endWrapping_def)
next
  case False
  with assms(1) have "\<not> canCloseWrapper (cx st)" by (auto simp: loopInv_def)
  from openStack_closed[OF this] assms(1) have "nest [] (tags st) = Some (wrapperStack st)"
    by (simp add: loopInv_def)
  with False show ?thesis by (auto simp: endWrapping_def)
qed

lemma tags_pushEmptyParagraph:
  "tags (pushEmptyParagraph st) = tags st @ [Some ''paragraph'', Some ''/paragraph'']"
  by (simp add: pushEmptyParagraph_def Let_def generatedParagraph_def closeElement_def)

lemma wrapperElement_pushEmptyParagraph [simp]:
  "wrapperElement (pushEmptyParagraph st) = wrapperElement st"
  by (simp add: pushEmptyParagraph_def Let_def)

lemma nest_emptyParagraph:
  "nest s (xs @ [Some ''paragraph'', Some ''/paragraph'']) = nest s xs"
  by (simp add: nest_append isCloseType_def split: option.splits)

lemma fillEmptyBranch_ok:
  assumes "nest [] (tags st) = Some (wrapperStack st)"
  shows "nest [] (tags (fillEmptyBranch env st)) = Some (wrapperStack (fillEmptyBranch env st))"
  using assms
  by (simp add: fillEmptyBranch_def Let_def tags_pushEmptyParagraph nest_emptyParagraph
      wrapperStack_def)

lemma closeWrapperElement_ok:
  assumes "nest [] (tags st) = Some (wrapperStack st)"
  shows "\<exists>s. closeWrapperElement st = Inr s \<and> nest [] (tags s) = Some []"
proof (cases "wrapperElement st")
  case None
  with assms show ?thesis by (simp add: closeWrapperElement_def wrapperStack_def)
next
  case (Some w)
  obtain r ty where w: "w = (r, ty)" by (cases w)
  have "\<exists>s. (if nextWhitespace st \<noteq> [] \<and> \<not> lastIsWrapper st
                 then bindE (addWhitespace (wrapperElement st) 2 (Some (nextWhitespace st)) st)
                        (\<lambda>s. Inr (s\<lparr>nextWhitespace := []\<rparr>))
                 else Inr st) = Inr s \<and> shape s = shape st"
  proof (cases "nextWhitespace st \<noteq> [] \<and> \<not> lastIsWrapper st")
    case True
    from addWhitespace_ok[of "wrapperElement st" 2 "Some (nextWhitespace st)" st] Some
    obtain s where "addWhitespace (wrapperElement st) 2 (Some (nextWhitespace st)) st = Inr s"
      "shape s = shape st" by auto
    with True show ?thesis by simp
  next
    case False
    then show ?thesis by auto
  qed
  then obtain s where s: "(if nextWhitespace st \<noteq> [] \<and> \<not> lastIsWrapper st
                 then bindE (addWhitespace (wrapperElement st) 2 (Some (nextWhitespace st)) st)
                        (\<lambda>s. Inr (s\<lparr>nextWhitespace := []\<rparr>))
                 else Inr st) = Inr s" "shape s = shape st" by blast
  have "nest [] (tags s) = Some [ty]"
    using assms shape_fields(8)[OF s(2)] Some w by (simp add: wrapperStack_def)
  then have "nest [] (tags (concatData [PElem (closeElement ty)] s)) = Some []"
    by (simp add: nest_append closeElement_def)
  with Some w s(1) show ?thesis by (simp add: closeWrapperElement_def)
qed

lemma fillEmptyDocument_ok:
  assumes "nest [] (tags st) = Some []"
  shows "nest [] (tags (fillEmptyDocument env given st)) = Some []"
  using assms by (simp add: fillEmptyDocument_def tags_pushEmptyParagraph nest_emptyParagraph)

lemma finishSubtree_ok:
  assumes "loopInv st" and "wsOk st"
  shows "\<exists>items h. finishSubtree env given st = Inr (items, h) \<and> balanced items"
proof -
  from endWrapping_ok[OF assms] obtain s1 where
    e: "endWrapping st = Inr s1" "nest [] (tags s1) = Some (wrapperStack s1)" by blast
  from closeWrapperElement_ok[OF fillEmptyBranch_ok[OF e(2), of env]] obtain s3 where
    c: "closeWrapperElement (fillEmptyBranch env s1) = Inr s3" "nest [] (tags s3) = Some []"
    by blast
  from fillEmptyDocument_ok[OF c(2), of env given]
  have "balanced (data (fillEmptyDocument env given s3))" by (simp add: balanced_def tags_def)
  with e(1) c(1) show ?thesis by (simp add: finishSubtree_def Let_def)
qed

subsection \<open>After a recursive call\<close>

lemma inv_append_items:
  assumes "loopInv st" and "balanced items"
  shows "loopInv (st\<lparr>data := data st @ items\<rparr>)"
    and "loopInv (st\<lparr>store := h, data := data st @ items\<rparr>)"
proof -
  have "nest [] (tags st @ map itemTag items) = nest [] (tags st)"
    using nest_insert[of "map itemTag items" "[]" "tags st" "[]"] assms(2)
    by (simp add: balanced_def)
  with assms(1) show "loopInv (st\<lparr>data := data st @ items\<rparr>)"
    and "loopInv (st\<lparr>store := h, data := data st @ items\<rparr>)"
    by (simp_all add: loopInv_def openStack_def tags_def)
qed

lemma resumeNode_ok:
  assumes "loopInv parent" and "canCloseWrapper (cx parent) \<longrightarrow> wrappedWhitespace parent = []"
    and "balanced items"
  shows "\<exists>s. resumeNode parent first items h = Inr s \<and> loopInv s \<and> wsOk s"
proof -
  let ?p = "parent\<lparr>store := h, data := data parent @ items\<rparr>"
  have i: "loopInv ?p" using inv_append_items(2)[OF assms(1,3)] .
  from processNextWhitespace_ok[of "Some first" ?p] obtain s where
    p: "processNextWhitespace (Some first) ?p = Inr s" "shape s = shape ?p" by auto
  have i': "loopInv s" using inv_shape[OF p(2)] i by simp
  have "cx s = cx parent" "wrappedWhitespace s = wrappedWhitespace parent"
    using shape_fields(2,5)[OF p(2)] by simp_all
  with assms(2) have "wsOk s" by (simp add: wsOk_weak)
  with p(1) i' show ?thesis by (simp add: resumeNode_def)
qed

lemma resumeAnnotation_ok:
  assumes "wellBehaved env" and "loopInv parent" and "balanced items"
  shows "\<exists>s. resumeAnnotation env parent nodes items h = Inr s \<and> loopInv s \<and> wsOk s"
proof -
  let ?st = "parent\<lparr>store := h\<rparr>"
  have "loopInv ?st" using assms(2) by simp
  from outputWrappedMetaItems_inv[OF this, of Restore] obtain s where
    o: "outputWrappedMetaItems Restore ?st = Inr s" "loopInv s" by auto
  show ?thesis
  proof (cases "items = [] \<or> isAllInstanceOf env items alienMeta")
    case True
    from wellBehaved_alienMetaItem[OF assms(1), of "cx ?st" nodes] obtain e rest where
      a: "alienMetaItemToDataElement env (cx ?st) nodes = Data e rest"
         "\<not> isCloseType (etype e)" "nest [] (map ptag rest) = Some []" by blast
    let ?e = "e\<lparr>originalDomElements := Some nodes\<rparr>"
    let ?cde = "PElem (annotate (cx_annotations (cx ?st)) ?e) # rest @ [PElem (closeElement (etype ?e))]"
    have c: "createDataElements (AlienMetaItem env) (cx ?st) nodes = Data ?e rest"
      using a(1) by (simp add: createDataElements_eq AlienMetaItem_def)
    have "nest [] (map ptag ?cde) = Some []"
      using a(2) nest_block[OF a(3), of "[etype e]"] by (simp add: nest_append closeElement_def)
    from inv_concatData[OF o(2) this] have "loopInv ((concatData ?cde s)\<lparr>wrappedWhitespace := []\<rparr>)"
      by simp
    with True o(1) c show ?thesis by (simp add: resumeAnnotation_def Let_def)
  next
    case False
    from inv_append_items(1)[OF o(2) assms(3)]
    have "loopInv (s\<lparr>data := data s @ items, wrappedWhitespace := []\<rparr>)" by simp
    with False o(1) show ?thesis by (simp add: resumeAnnotation_def Let_def)
  qed
qed

definition contOk :: "continuation \<Rightarrow> bool" where
  "contOk k =
     (case k of
        AnnotationCont parent nodes \<Rightarrow> loopInv parent
      | NodeCont parent first extra \<Rightarrow>
          loopInv parent \<and> (canCloseWrapper (cx parent) \<longrightarrow> wrappedWhitespace parent = []))"

lemma resume_ok:
  assumes "wellBehaved env" and "contOk k" and "loopInv res" and "wsOk res"
  shows "\<exists>extra s. resume env k res = Inr (extra, s) \<and> loopInv s \<and> wsOk s"
proof -
  from finishSubtree_ok[OF assms(3,4), of env True] obtain items h where
    f: "finishSubtree env True res = Inr (items, h)" "balanced items" by blast
  show ?thesis
  proof (cases k)
    case (AnnotationCont parent nodes)
    with assms(2) have "loopInv parent" by (simp add: contOk_def)
    from resumeAnnotation_ok[OF assms(1) this f(2), of nodes h] obtain s where
      "resumeAnnotation env parent nodes items h = Inr s" "loopInv s" "wsOk s" by blast
    with AnnotationCont f(1) show ?thesis by (simp add: resume_def)
  next
    case (NodeCont parent first extra)
    with assms(2) have "loopInv parent"
      "canCloseWrapper (cx parent) \<longrightarrow> wrappedWhitespace parent = []"
      by (simp_all add: contOk_def)
    from resumeNode_ok[OF this f(2), of first h] obtain s where
      "resumeNode parent first items h = Inr s" "loopInv s" "wsOk s" by blast
    with NodeCont f(1) show ?thesis by (simp add: resume_def)
  qed
qed

subsection \<open>The loop\<close>

lemma childLoop_ok:
  assumes "wellBehaved env"
  shows "loopInv st \<Longrightarrow> wsOk st \<Longrightarrow>
         \<exists>st'. childLoop env children i st = Inr st' \<and> loopInv st' \<and> wsOk st'"
  using assms
proof (induction env children i st rule: childLoop.induct)
  case (1 env children i st)
  show ?case
  proof (cases "length children \<le> i")
    case True
    with "1.prems" show ?thesis by (subst childLoop.simps) simp
  next
    case False
    from handleChild_ok[OF "1.prems"(3,1,2), of children i] obtain a where
      a: "handleChild env children i st = Inr a" "actionOk a" by blast
    show ?thesis
    proof (cases a)
      case (Continue extra s1)
      with a(2) have "loopInv s1" "wsOk s1" by (simp_all add: actionOk_def)
      from "1.IH"(1)[OF False a(1) Continue this "1.prems"(3)] obtain st' where
        "childLoop env children (i + 1 + extra) s1 = Inr st'" "loopInv st'" "wsOk st'" by blast
      with False a(1) Continue show ?thesis by (subst childLoop.simps) simp
    next
      case (Recurse inner k)
      with a(2) have in': "loopInv inner" "wsOk inner" and k: "contOk k"
        by (simp_all add: actionOk_def contOk_def)
      from "1.IH"(2)[OF False a(1) Recurse in' "1.prems"(3)] obtain res where
        r: "childLoop env (childNodes (children ! i)) 0 inner = Inr res" "loopInv res" "wsOk res"
        by blast
      from resume_ok[OF "1.prems"(3) k r(2,3)] obtain extra s2 where
        s: "resume env k res = Inr (extra, s2)" "loopInv s2" "wsOk s2" by blast
      from "1.IH"(3)[OF False a(1) Recurse r(1) s(1) refl s(2,3) "1.prems"(3)] obtain st' where
        "childLoop env children (i + 1 + extra) s2 = Inr st'" "loopInv st'" "wsOk st'" by blast
      with False a(1) Recurse r(1) s(1) show ?thesis by (subst childLoop.simps) simp
    qed
  qed
qed

text \<open>The function returns balanced data, whatever the DOM.\<close>

lemma getDataFromDomSubtree_ok:
  assumes "wellBehaved env"
    and "case wrapper of Some (r, ty) \<Rightarrow> \<not> isCloseType ty | None \<Rightarrow> True"
  shows "\<exists>items h'. getDataFromDomSubtree env domElement wrapper annotationSet prevContext h
                       = Inr (items, h') \<and> balanced items"
proof -
  from initState_ok[OF assms(2), of env annotationSet prevContext h]
  have i: "loopInv (initState env wrapper annotationSet prevContext h)"
    "wsOk (initState env wrapper annotationSet prevContext h)" by simp_all
  from childLoop_ok[OF assms(1) i, of "childNodes domElement" 0] obtain st' where
    c: "childLoop env (childNodes domElement) 0 (initState env wrapper annotationSet prevContext h)
        = Inr st'" "loopInv st'" "wsOk st'" by blast
  from finishSubtree_ok[OF c(2,3), of env "annotationSet \<noteq> None"] c(1) show ?thesis
    by (simp add: getDataFromDomSubtree_def)
qed

subsection \<open>A small registry\<close>

definition units :: "string \<Rightarrow> jstring" where
  "units s = map of_char s"

definition plainElement :: "string \<Rightarrow> element" where
  "plainElement ty = \<lparr>etype = ty, attributes = [], internal = None, annotations = None,
     originalDomElements = None\<rparr>"

text \<open>
  A registry with a paragraph (\<^verbatim>\<open>p\<close>), a list and its items (\<^verbatim>\<open>ul\<close>, \<^verbatim>\<open>li\<close>), an inline
  image (\<^verbatim>\<open>img\<close>), the bold annotation (\<^verbatim>\<open>b\<close>), a meta item (\<^verbatim>\<open>meta\<close>), a comment meta
  item and a table (\<^verbatim>\<open>table\<close>) whose \<^verbatim>\<open>toDataElement\<close> gives up and returns \<^verbatim>\<open>null\<close>; every other
  node is an alien, inline where content is expected.
\<close>

definition demoClass :: "string \<Rightarrow> modelClass option" where
  "demoClass name =
     (if name = ''paragraph'' \<or> name = ''list'' \<or> name = ''listItem'' \<or> name = ''inlineImage''
      then Some \<lparr>kind = NodeClass, alienMeta = False, enableAboutGrouping = False,
                 toDataElement = (\<lambda>c ns. Data (plainElement name) [])\<rparr>
      else if name = ''textStyle/bold''
      then Some \<lparr>kind = AnnotationClass, alienMeta = False, enableAboutGrouping = False,
                 toDataElement = (\<lambda>c ns. Data (plainElement name) [])\<rparr>
      else if name = ''meta'' \<or> name = ''comment''
      then Some \<lparr>kind = MetaItemClass, alienMeta = False, enableAboutGrouping = False,
                 toDataElement = (\<lambda>c ns. Data (plainElement name) [])\<rparr>
      else if name = ''alienMeta''
      then Some \<lparr>kind = MetaItemClass, alienMeta = True, enableAboutGrouping = False,
                 toDataElement = (\<lambda>c ns. Data (plainElement name) [])\<rparr>
      else if name = ''table''
      then Some \<lparr>kind = NodeClass, alienMeta = False, enableAboutGrouping = False,
                 toDataElement = (\<lambda>c ns. dataElements.Null)\<rparr>
      else if name = ''alienBlock'' \<or> name = ''alienInline''
      then Some \<lparr>kind = NodeClass, alienMeta = False, enableAboutGrouping = True,
                 toDataElement = (\<lambda>c ns. Data (plainElement
                   (if expectingContent c then ''alienInline'' else ''alienBlock'')) [])\<rparr>
      else None)"

definition demoMatch :: "dom \<Rightarrow> bool \<Rightarrow> string option" where
  "demoMatch n grouped =
     (case n of
        ElementNode tag attrs cs \<Rightarrow>
          (if tag = ''p'' then Some ''paragraph'' else if tag = ''ul'' then Some ''list''
           else if tag = ''li'' then Some ''listItem'' else if tag = ''img'' then Some ''inlineImage''
           else if tag = ''b'' then Some ''textStyle/bold'' else if tag = ''meta'' then Some ''meta''
           else if tag = ''table'' then Some ''table'' else None)
      | CommentNode c \<Rightarrow> Some ''comment''
      | _ \<Rightarrow> None)"

definition demoEnv :: cenv where
  "demoEnv =
     \<lparr>matchElement = demoMatch,
      lookup = (\<lambda>name. case name of None \<Rightarrow> None | Some n \<Rightarrow> demoClass n),
      alienNodeAboutGrouping = True,
      alienNodeToDataElement = (\<lambda>c ns. Data (plainElement
         (if expectingContent c then ''alienInline'' else ''alienBlock'')) []),
      alienMetaItemToDataElement = (\<lambda>c ns. Data (plainElement ''alienMeta'') []),
      canNodeContainContent = (\<lambda>ty. ty = ''paragraph''),
      isNodeContent = (\<lambda>ty. ty = ''inlineImage'' \<or> ty = ''alienInline''),
      canNodeHaveChildren = (\<lambda>ty. ty = ''paragraph'' \<or> ty = ''list'' \<or> ty = ''listItem''),
      doesNodeHandleOwnChildren = (\<lambda>ty. False),
      doesNodeHaveSignificantWhitespace = (\<lambda>ty. False),
      getChildNodeTypes = (\<lambda>ty. if ty = ''list'' then Some [''listItem''] else None),
      createFromElement = (\<lambda>e. 7)\<rparr>"

definition convert :: "dom \<Rightarrow> error + item list" where
  "convert body = map_sum id fst (getDataFromDomSubtree demoEnv body None None None [])"

definition el :: "string \<Rightarrow> dom list \<Rightarrow> dom" where "el tag cs = ElementNode tag [] cs"
definition tnode :: "string \<Rightarrow> dom" where "tnode s = TextNode (units s)"

lemma demoEnv_wellBehaved: "wellBehaved demoEnv"
  by (auto simp: wellBehaved_def demoEnv_def demoClass_def resultOk_def blockOk_def queueable_def
      withClose_tags plainElement_def whitespaceOf_def isCloseType_def
      split: option.splits if_splits)

section \<open>Claims about the converter\<close>






text \<open>
  C8. With a well-behaved registry, the linear data that getDataFromDomSubtree returns
  for a DOM subtree is balanced: read from left to right, every close marker closes the
  innermost open marker, and no marker is left open at the end - the wrapper element,
  the wrapping paragraphs and the generated empty paragraphs included. The function
  returns such data for every DOM subtree.
\<close>

theorem getDataFromDomSubtree_balanced:
  assumes "wellBehaved env"
    and "case wrapper of Some (r, ty) \<Rightarrow> \<not> isCloseType ty | None \<Rightarrow> True"
  shows "\<exists>items h'. getDataFromDomSubtree env domElement wrapper annotationSet prevContext h
                       = Inr (items, h') \<and> balanced items"
  using assms by (rule getDataFromDomSubtree_ok)

subsection \<open>A document\<close>

text \<open>Bare text with a meta item and a bold annotation in it, an element that the registry
  does not know, a table, which its class gives up on, a list with an empty item, and
  bare text again.\<close>

definition demoDocument :: dom where
  "demoDocument = el ''body'' [tnode ''a '', el ''meta'' [], el ''b'' [tnode ''c''], tnode '' '',
      el ''foo'' [tnode ''zz''], el ''table'' [], el ''ul'' [el ''li'' []], tnode ''d'']"


lemmas conv_defs =
  getDataFromDomSubtree_def childLoop.simps handleChild_def handleElement_def handleText_def
  handleBareText_def handleContentText_def initState_def finishSubtree_def endWrapping_def
  fillEmptyBranch_def closeWrapperElement_def fillEmptyDocument_def pushEmptyParagraph_def
  lastIsWrapper_def stopWrapping_def moveWrappedWhitespace_def startWrapping_def
  outputWrappedMetaItems_def concatData_def spliceData_def removeData_def updateCx_def
  processNextWhitespace_def addWhitespace_def setWhitespace_def whitespaceBefore_def
  splitText_def leadingSpace_def trailingSpace_def isSpace_def getDataContentFromText_def
  resolveModel_def createDataElements_def alienNodes_def AlienNode_def AlienMetaItem_def
  getAboutGroup_def getAttribute_def isElementNode_def childNodes_def
  nodeBranch_def adjustWrapping_def keepWrapped_def outputChild_def metaItemBranch_def
  annotationBranch_def resume_def resumeNode_def resumeAnnotation_def isAllInstanceOf_def
  getType_def isOpenType_def whitespaceOf_def annotate_def withClose_def closeElement_def
  generatedParagraph_def isValidChildNodeType_def pushIndex_def addWhitespaceQueued_def
  js_index_def
  demoEnv_def demoClass_def demoMatch_def plainElement_def el_def tnode_def units_def
  Let_def

lemma demoDocument_converted:
  "map_sum id fst (getDataFromDomSubtree demoEnv demoDocument None None None []) =
   Inr [Elem 0 ''paragraph'', Chr 97, Chr 32, Elem 1 ''meta'', Elem 2 ''/meta'', AnnChr 99 [7],
        Chr 32, Elem 3 ''alienInline'', Elem 4 ''/alienInline'', Elem 5 ''alienInline'',
        Elem 6 ''/alienInline'', Elem 7 ''/paragraph'', Elem 8 ''list'', Elem 9 ''listItem'',
        Elem 10 ''paragraph'', Elem 11 ''/paragraph'', Elem 12 ''/listItem'', Elem 13 ''/list'',
        Elem 14 ''paragraph'', Chr 100, Elem 15 ''/paragraph'']"
  by (simp add: demoDocument_def conv_defs)

theorem getDataFromDomSubtree_balanced_witness:
  "wellBehaved demoEnv \<and>
   (\<exists>items h'. getDataFromDomSubtree demoEnv demoDocument None None None [] = Inr (items, h') \<and>
      balanced items \<and>
      items = [Elem 0 ''paragraph'', Chr 97, Chr 32, Elem 1 ''meta'', Elem 2 ''/meta'',
        AnnChr 99 [7], Chr 32, Elem 3 ''alienInline'', Elem 4 ''/alienInline'',
        Elem 5 ''alienInline'', Elem 6 ''/alienInline'', Elem 7 ''/paragraph'', Elem 8 ''list'',
        Elem 9 ''listItem'', Elem 10 ''paragraph'', Elem 11 ''/paragraph'', Elem 12 ''/listItem'',
        Elem 13 ''/list'', Elem 14 ''paragraph'', Chr 100, Elem 15 ''/paragraph''])"
proof -
  from getDataFromDomSubtree_balanced[OF demoEnv_wellBehaved, of None demoDocument None None "[]"]
  obtain items h' where
    r: "getDataFromDomSubtree demoEnv demoDocument None None None [] = Inr (items, h')"
       "balanced items" by auto
  with demoDocument_converted demoEnv_wellBehaved show ?thesis by simp
qed



end
